theory Spec2Isabelle
  imports Complex_Main "HOL-Library.Char_ord" "HOL-Library.Log_Nat"
begin

section \<open>The compact blueprint interpreter of \<^verbatim>\<open>server/src/session.ts\<close>\<close>

text \<open>
  This theory embeds the blueprint expansion of the server (the code from
  \<^verbatim>\<open>parseBlocksFromResponse\<close> down to \<^verbatim>\<open>tokenizeExpression\<close>) and proves
  properties of it. The conventions of the embedding:

  \<^item> A parsed JSON document is a value of type \<open>json\<close>. An object is the list of its
    own properties in enumeration order, with distinct keys; a property read
    \<^verbatim>\<open>obj.k\<close> is \<open>map_of\<close>, and \<open>None\<close> stands for \<^verbatim>\<open>undefined\<close>.
  \<^item> A number of the host is an IEEE double. A JSON number is the rational its text
    denotes; the host reads it as the nearest double, ties to the even mantissa, or as an
    infinity: this is \<open>Number_of\<close>, with \<open>None\<close> for an infinity. The finite numbers the
    interpreter computes with are integers (type \<open>int\<close>: the results of \<^verbatim>\<open>Math.trunc\<close>, of
    \<^verbatim>\<open>Number.parseInt\<close> and of the operations on such numbers), and every sum, difference
    and product is rounded as the host rounds it (\<open>Number_int\<close>), every quotient before it
    is truncated (\<open>Number_of\<close>).
  \<^item> A string is a list of code units below 256 (\<open>char\<close>).
  \<^item> A thrown exception is a value of type \<open>err\<close>, one constructor per \<^verbatim>\<open>throw\<close> of
    the source, and one for the host's \<^verbatim>\<open>TypeError\<close> of \<^verbatim>\<open>String(v)\<close>.
  \<^item> A scope is a finite map from names to \<open>ScopeValue\<close> (\<^verbatim>\<open>number | string\<close>, as the
    source declares it): the own properties of the object. The source looks names
    up with \<^verbatim>\<open>scope[name]\<close> and \<^verbatim>\<open>key in rawArgs\<close>, which find the members of
    \<^verbatim>\<open>Object.prototype\<close> too (\<open>inherited\<close>); an assignment \<^verbatim>\<open>args["__proto__"] = v\<close> of a
    number or a string adds no property.
  \<^item> Four more constructors of \<open>err\<close> stand for no exception (\<open>beyond\<close>). Three of them
    mark the points where the source goes on with a value the model has not: a number
    that is infinite or not a number (\<open>NotFinite\<close>), a member of \<^verbatim>\<open>Object.prototype\<close> found
    under a name that the scope does not bind (\<open>InheritedMember\<close>), the text of a number
    that is no integer up to \<open>2^53\<close> (\<open>NumberText\<close>). An outcome with one of them says that
    the source reaches this point without an exception, and nothing about what it does
    from there on. The fourth, \<open>NeverReturns\<close>, is the outcome of a loop that repeats for
    ever. No \<^verbatim>\<open>catch\<close> of the source sees any of the four.
  \<^item> The module variable \<^verbatim>\<open>supportedBlockTypes\<close> (a \<^verbatim>\<open>Set\<close>, iterated in insertion
    order) is the parameter \<open>catalog\<close>, a list. The warnings the code prints, and the memo
    \<^verbatim>\<open>warnedInvalidBlockTypes\<close> that only decides whether one is printed, are left out.
\<close>

subsection \<open>Characters and strings\<close>

text \<open>The white space of \<^verbatim>\<open>\s\<close> and of \<^verbatim>\<open>trim()\<close> among the code units below 256.\<close>

definition is_space :: "char \<Rightarrow> bool" where
  "is_space ch \<longleftrightarrow>
     ch = CHR 0x09 \<or> ch = CHR 0x0A \<or> ch = CHR 0x0B \<or> ch = CHR 0x0C \<or> ch = CHR 0x0D \<or>
     ch = CHR 0x20 \<or> ch = CHR 0xA0"

definition is_digit :: "char \<Rightarrow> bool" where
  "is_digit ch \<longleftrightarrow> CHR ''0'' \<le> ch \<and> ch \<le> CHR ''9''"

text \<open>\<^verbatim>\<open>/[A-Za-z_]/\<close> and \<^verbatim>\<open>/[A-Za-z0-9_]/\<close>.\<close>

definition is_ident_start :: "char \<Rightarrow> bool" where
  "is_ident_start ch \<longleftrightarrow>
     (CHR ''A'' \<le> ch \<and> ch \<le> CHR ''Z'') \<or> (CHR ''a'' \<le> ch \<and> ch \<le> CHR ''z'') \<or> ch = CHR ''_''"

definition is_ident_char :: "char \<Rightarrow> bool" where
  "is_ident_char ch \<longleftrightarrow> is_ident_start ch \<or> is_digit ch"

text \<open>\<^verbatim>\<open>/^[A-Za-z_][A-Za-z0-9_]*$/.test(s)\<close>\<close>

definition is_identifier :: "string \<Rightarrow> bool" where
  "is_identifier s = (case s of [] \<Rightarrow> False | c # cs \<Rightarrow> is_ident_start c \<and> list_all is_ident_char cs)"

text \<open>\<^verbatim>\<open>/^-?\d+$/.test(s)\<close>\<close>

definition is_integer_text :: "string \<Rightarrow> bool" where
  "is_integer_text s =
     (case s of
        [] \<Rightarrow> False
      | c # cs \<Rightarrow> if c = CHR ''-'' then cs \<noteq> [] \<and> list_all is_digit cs
                  else list_all is_digit (c # cs))"

definition trim :: "string \<Rightarrow> string" where
  "trim s = rev (dropWhile is_space (rev (dropWhile is_space s)))"

text \<open>\<^verbatim>\<open>toLowerCase()\<close>: the letters A-Z, and those of the Latin-1 block.\<close>

definition lower_char :: "char \<Rightarrow> char" where
  "lower_char ch =
     (if (CHR ''A'' \<le> ch \<and> ch \<le> CHR ''Z'') \<or> (CHR 0xC0 \<le> ch \<and> ch \<le> CHR 0xDE \<and> ch \<noteq> CHR 0xD7)
      then char_of (of_char ch + (32::nat)) else ch)"

definition toLowerCase :: "string \<Rightarrow> string" where
  "toLowerCase s = map lower_char s"

text \<open>\<^verbatim>\<open>s.replace(/\s+/g, "_")\<close>: every maximal run of white space becomes one underscore.\<close>

function replace_spaces :: "string \<Rightarrow> string" where
  "replace_spaces [] = []"
| "replace_spaces (c # cs) =
     (if is_space c then CHR ''_'' # replace_spaces (dropWhile is_space cs)
      else c # replace_spaces cs)"
  by pat_completeness auto
termination
  by (relation "measure length") (auto simp: le_imp_less_Suc length_dropWhile_le)

text \<open>\<^verbatim>\<open>s.replace(/-/g, "_")\<close>\<close>

definition replace_hyphens :: "string \<Rightarrow> string" where
  "replace_hyphens s = map (\<lambda>c. if c = CHR ''-'' then CHR ''_'' else c) s"

definition startsWith :: "string \<Rightarrow> string \<Rightarrow> bool" where
  "startsWith s p \<longleftrightarrow> take (length p) s = p"

subsection \<open>Numbers\<close>

text \<open>\<^verbatim>\<open>Math.trunc\<close>: the integer part, rounding toward zero.\<close>

definition Math_trunc :: "rat \<Rightarrow> int" where
  "Math_trunc q = (if 0 \<le> q then \<lfloor>q\<rfloor> else \<lceil>q\<rceil>)"

text \<open>The nearest integer, a tie going to the even one.\<close>

definition round_half_even :: "rat \<Rightarrow> int" where
  "round_half_even q =
     (let n = \<lfloor>q\<rfloor>; r = q - of_int n
      in if r < 1 / 2 then n else if 1 / 2 < r then n + 1 else if even n then n else n + 1)"

text \<open>The exponent \<open>e\<close> of a positive number: \<open>2^e \<le> q < 2^(e+1)\<close>.\<close>

definition binade :: "rat \<Rightarrow> int" where
  "binade q = (if 1 \<le> q then bitlen \<lfloor>q\<rfloor> - 1 else - bitlen (\<lceil>1 / q\<rceil> - 1))"

text \<open>
  The double nearest to a real number (IEEE 754 binary64, round to nearest, ties to even):
  a multiple of \<open>2^(e - 52)\<close> for the exponent \<open>e\<close> of the number, which is at least
  \<open>-1022\<close>; \<open>None\<close> is an infinity, the result from \<open>2^1024\<close> on.
\<close>

definition Number_of :: "rat \<Rightarrow> rat option" where
  "Number_of q =
     (if q = 0 then Some 0
      else
        (let u = 2 powi (max (binade \<bar>q\<bar>) (- 1022) - 52);
             v = of_int (round_half_even (\<bar>q\<bar> / u)) * u
         in if 2 ^ 1024 \<le> v then None else Some (sgn q * v)))"

text \<open>The double nearest to an integer, which is an integer too.\<close>

definition Number_int :: "int \<Rightarrow> int option" where
  "Number_int n = map_option Math_trunc (Number_of (of_int n))"

definition digit_value :: "char \<Rightarrow> nat" where
  "digit_value ch = of_char ch - 48"

definition parse_digits :: "string \<Rightarrow> nat" where
  "parse_digits ds = foldl (\<lambda>n ch. n * 10 + digit_value ch) 0 ds"

text \<open>The integer that a run of digits denotes, or one after a minus sign.\<close>

definition integer_of_text :: "string \<Rightarrow> int" where
  "integer_of_text s =
     (case s of
        [] \<Rightarrow> 0
      | c # cs \<Rightarrow> if c = CHR ''-'' then - int (parse_digits cs) else int (parse_digits (c # cs)))"

text \<open>\<^verbatim>\<open>Number.parseInt(s, 10)\<close>, on the strings the code gives it: a run of digits, or one
  after a minus sign. The result is the double nearest to the integer.\<close>

definition Number_parseInt :: "string \<Rightarrow> int option" where
  "Number_parseInt s = Number_int (integer_of_text s)"

definition digit_char :: "nat \<Rightarrow> char" where
  "digit_char n = char_of (48 + n)"

fun string_of_nat :: "nat \<Rightarrow> string" where
  "string_of_nat n = (if n < 10 then [digit_char n] else string_of_nat (n div 10) @ [digit_char (n mod 10)])"

declare string_of_nat.simps [simp del]

definition string_of_int :: "int \<Rightarrow> string" where
  "string_of_int i = (if i < 0 then CHR ''-'' # string_of_nat (nat (- i)) else string_of_nat (nat i))"

subsection \<open>JSON values, errors\<close>

datatype json =
    JNull
  | JBool bool
  | JNum rat
  | JStr string
  | JArr "json list"
  | JObj "(string \<times> json) list"

text \<open>One constructor for each \<^verbatim>\<open>throw\<close>; the comment is the message.\<close>

datatype err =
    InvalidCharacter char  \<comment> \<open>invalid character "c"\<close>
  | EmptyExpression  \<comment> \<open>empty expression\<close>
  | UnexpectedEnd  \<comment> \<open>unexpected end of expression\<close>
  | UnexpectedToken  \<comment> \<open>unexpected token\<close>
  | UnknownVariable string  \<comment> \<open>unknown variable "v"\<close>
  | NonNumericVariable string  \<comment> \<open>variable "v" is non-numeric\<close>
  | MissingClosingParen  \<comment> \<open>missing closing parenthesis\<close>
  | TrailingTokens  \<comment> \<open>trailing tokens\<close>
  | DivisionByZero string  \<comment> \<open>Division by zero in field\<close>
  | UnsupportedOperator char string  \<comment> \<open>Unsupported operator "op" in field\<close>
  | NotNumberOrExpression string  \<comment> \<open>field must be a number or expression string\<close>
  | ExpressionIsEmpty string  \<comment> \<open>field expression is empty\<close>
  | UnsupportedExpression string string err  \<comment> \<open>Unsupported expression "expr" in field: cause\<close>
  | NotNumberOrString string  \<comment> \<open>field must be a number or string\<close>
  | CannotBeEmpty string  \<comment> \<open>field cannot be empty\<close>
  | CannotConvertToPrimitive  \<comment> \<open>the host's TypeError of String(v)\<close>
  | ResponseNotObject  \<comment> \<open>Gemini response must be a JSON object\<close>
  | MissingStepsDefsOrBlocks  \<comment> \<open>Gemini response missing steps/defs or blocks\<close>
  | DefinitionNotObject  \<comment> \<open>Definition entry must be an object\<close>
  | DefinitionMissingName  \<comment> \<open>Definition missing name\<close>
  | DefinitionMissingSteps string  \<comment> \<open>Definition "name" missing steps array\<close>
  | CompactMissingSteps  \<comment> \<open>Compact format missing top-level steps array\<close>
  | CallDepthExceeded  \<comment> \<open>Exceeded max function call depth\<close>
  | ExecutedStepsExceeded  \<comment> \<open>Exceeded max executed compact steps\<close>
  | StepNotObject  \<comment> \<open>Step must be an object\<close>
  | UnsupportedOp string  \<comment> \<open>Unsupported compact op: "op"\<close>
  | ForMissingVar  \<comment> \<open>for step missing "var"\<close>
  | ForStepZero  \<comment> \<open>for.step cannot be 0\<close>
  | ForMissingSteps  \<comment> \<open>for step missing nested "steps" array\<close>
  | CallsExceeded  \<comment> \<open>Exceeded max function calls\<close>
  | CallMissingName  \<comment> \<open>call step missing "name"\<close>
  | UndefinedFunction string  \<comment> \<open>Undefined function "name"\<close>
  | FunctionInvalidSteps string  \<comment> \<open>Function "name" has invalid steps\<close>
  | MissingArg string string  \<comment> \<open>Missing arg "key" in call "name"\<close>
  | LegacyNotObject nat  \<comment> \<open>Legacy blocks[idx] must be an object\<close>
  | NotFinite  \<comment> \<open>no exception: the source goes on with an infinity or with NaN\<close>
  | InheritedMember string  \<comment> \<open>no exception: the source goes on with Object.prototype[name]\<close>
  | NumberText  \<comment> \<open>no exception: the source goes on with a text of the number\<close>
  | NeverReturns  \<comment> \<open>no exception: the loop repeats for ever\<close>

text \<open>The outcomes that are no exception of the source.\<close>

definition beyond :: "err \<Rightarrow> bool" where
  "beyond e =
     (case e of
        NotFinite \<Rightarrow> True
      | InheritedMember name \<Rightarrow> True
      | NumberText \<Rightarrow> True
      | NeverReturns \<Rightarrow> True
      | _ \<Rightarrow> False)"

text \<open>
  \<^verbatim>\<open>String(n)\<close> for a finite number: the decimal digits of an integer of magnitude up to
  \<open>2^53\<close>. For the other numbers the host prints the shortest decimal that reads back
  as the same double, in exponent notation from \<open>10^21\<close> on and below \<open>10^-6\<close>; the model
  ends there.
\<close>

definition Number_toString :: "rat \<Rightarrow> err + string" where
  "Number_toString v =
     (if v = of_int \<lfloor>v\<rfloor> \<and> \<bar>v\<bar> \<le> 2 ^ 53 then Inr (string_of_int \<lfloor>v\<rfloor>) else Inl NumberText)"

text \<open>
  \<^verbatim>\<open>String(v)\<close>. An array is joined with commas, \<^verbatim>\<open>null\<close> elements as empty strings. A
  plain object prints as \<^verbatim>\<open>[object Object]\<close> through the \<^verbatim>\<open>toString\<close> it inherits; when
  it has a property \<^verbatim>\<open>toString\<close> of its own (never a function, in a JSON document) the
  conversion to a primitive has no method left and throws.
\<close>

fun js_String :: "json \<Rightarrow> err + string"
  and js_join :: "json list \<Rightarrow> err + string"
where
  "js_String JNull = Inr ''null''"
| "js_String (JBool b) = Inr (if b then ''true'' else ''false'')"
| "js_String (JNum q) =
     (case Number_of q of
        None \<Rightarrow> Inr (if 0 < q then ''Infinity'' else ''-Infinity'')
      | Some v \<Rightarrow> Number_toString v)"
| "js_String (JStr s) = Inr s"
| "js_String (JArr xs) = js_join xs"
| "js_String (JObj kvs) =
     (if ''toString'' \<in> set (map fst kvs) then Inl CannotConvertToPrimitive
      else Inr ''[object Object]'')"
| "js_join [] = Inr ''''"
| "js_join (x # xs) =
     (case (if x = JNull then Inr '''' else js_String x) of
        Inl e \<Rightarrow> Inl e
      | Inr s \<Rightarrow>
          (if xs = [] then Inr s
           else (case js_join xs of Inl e \<Rightarrow> Inl e | Inr r \<Rightarrow> Inr (s @ '','' @ r))))"

text \<open>\<^verbatim>\<open>String(v ?? "")\<close>, for a property \<open>v\<close> that may be missing.\<close>

definition String_or_empty :: "json option \<Rightarrow> err + string" where
  "String_or_empty v =
     (case v of None \<Rightarrow> Inr '''' | Some JNull \<Rightarrow> Inr '''' | Some x \<Rightarrow> js_String x)"

definition isArray :: "json option \<Rightarrow> bool" where
  "isArray v = (case v of Some (JArr xs) \<Rightarrow> True | _ \<Rightarrow> False)"

subsection \<open>The expression evaluator\<close>

text \<open>The value of a number token is the result of \<^verbatim>\<open>Number.parseInt\<close>: an integer, or an
  infinity (\<open>None\<close>) for a numeral from \<open>2^1024\<close> on.\<close>

datatype ExprToken =
    TNumber "int option"
  | TIdent string
  | TOp char
  | TLparen
  | TRparen

datatype ScopeValue = SNum int | SStr string

type_synonym Scope = "string \<rightharpoonup> ScopeValue"

text \<open>The members of \<^verbatim>\<open>Object.prototype\<close>: the names that \<^verbatim>\<open>obj[name]\<close> and \<^verbatim>\<open>name in obj\<close>
  find in every plain object. Their values are functions, and an object for
  \<^verbatim>\<open>__proto__\<close>.\<close>

definition Object_prototype_names :: "string list" where
  "Object_prototype_names =
     [''constructor'', ''__defineGetter__'', ''__defineSetter__'', ''hasOwnProperty'',
      ''__lookupGetter__'', ''__lookupSetter__'', ''isPrototypeOf'', ''propertyIsEnumerable'',
      ''toString'', ''valueOf'', ''__proto__'', ''toLocaleString'']"

definition inherited :: "string \<Rightarrow> bool" where
  "inherited name \<longleftrightarrow> name \<in> set Object_prototype_names"

text \<open>The loop of \<^verbatim>\<open>tokenizeExpression\<close>, on the rest of the input and the tokens so far.\<close>

function tokenizeLoop :: "string \<Rightarrow> ExprToken list \<Rightarrow> err + ExprToken list" where
  "tokenizeLoop [] tokens = Inr tokens"
| "tokenizeLoop (ch # rest) tokens =
     (if is_space ch then tokenizeLoop rest tokens
      else if is_digit ch then
        tokenizeLoop (dropWhile is_digit rest)
          (tokens @ [TNumber (Number_parseInt (ch # takeWhile is_digit rest))])
      else if is_ident_start ch then
        tokenizeLoop (dropWhile is_ident_char rest)
          (tokens @ [TIdent (ch # takeWhile is_ident_char rest)])
      else if ch = CHR ''+'' \<or> ch = CHR ''-'' \<or> ch = CHR ''*'' \<or> ch = CHR ''/'' then
        tokenizeLoop rest (tokens @ [TOp ch])
      else if ch = CHR ''('' then tokenizeLoop rest (tokens @ [TLparen])
      else if ch = CHR '')'' then tokenizeLoop rest (tokens @ [TRparen])
      else Inl (InvalidCharacter ch))"
  by pat_completeness auto
termination
  by (relation "measure (\<lambda>(s, tokens). length s)") (auto simp: le_imp_less_Suc length_dropWhile_le)

definition tokenizeExpression :: "string \<Rightarrow> err + ExprToken list" where
  "tokenizeExpression expr =
     (case tokenizeLoop expr [] of
        Inl e \<Rightarrow> Inl e
      | Inr tokens \<Rightarrow> if tokens = [] then Inl EmptyExpression else Inr tokens)"

text \<open>A number of the host as a result: the model ends at an infinity.\<close>

definition finite_number :: "int option \<Rightarrow> err + int" where
  "finite_number n = (case n of Some v \<Rightarrow> Inr v | None \<Rightarrow> Inl NotFinite)"

text \<open>The operations round their results; \<^verbatim>\<open>Math.trunc(left / right)\<close> truncates the rounded
  quotient.\<close>

definition applyIntOp :: "int \<Rightarrow> char \<Rightarrow> int \<Rightarrow> string \<Rightarrow> err + int" where
  "applyIntOp left op right field =
     (if op = CHR ''+'' then finite_number (Number_int (left + right))
      else if op = CHR ''-'' then finite_number (Number_int (left - right))
      else if op = CHR ''*'' then finite_number (Number_int (left * right))
      else if op = CHR ''/'' then
        (if right = 0 then Inl (DivisionByZero field)
         else finite_number (map_option Math_trunc (Number_of (of_int left / of_int right))))
      else Inl (UnsupportedOperator op field))"

text \<open>
  The three closures of \<^verbatim>\<open>evaluateIntegerExpression\<close>. They share the array \<^verbatim>\<open>tokens\<close> and
  the counter \<^verbatim>\<open>index\<close>; here each takes the tokens from \<^verbatim>\<open>index\<close> on and returns its
  value with the tokens it has not read. The two \<^verbatim>\<open>while\<close> loops are the functions
  \<open>parseExpressionLoop\<close> and \<open>parseTermLoop\<close>, on the value so far.
\<close>

function parseExpression :: "Scope \<Rightarrow> string \<Rightarrow> ExprToken list \<Rightarrow> err + (int \<times> ExprToken list)"
  and parseExpressionLoop :: "Scope \<Rightarrow> string \<Rightarrow> int \<Rightarrow> ExprToken list \<Rightarrow> err + (int \<times> ExprToken list)"
  and parseTerm :: "Scope \<Rightarrow> string \<Rightarrow> ExprToken list \<Rightarrow> err + (int \<times> ExprToken list)"
  and parseTermLoop :: "Scope \<Rightarrow> string \<Rightarrow> int \<Rightarrow> ExprToken list \<Rightarrow> err + (int \<times> ExprToken list)"
  and parseFactor :: "Scope \<Rightarrow> string \<Rightarrow> ExprToken list \<Rightarrow> err + (int \<times> ExprToken list)"
where
  "parseExpression scope field ts =
     (case parseTerm scope field ts of
        Inl e \<Rightarrow> Inl e
      | Inr (v, rest) \<Rightarrow> parseExpressionLoop scope field v rest)"
| "parseExpressionLoop scope field v ts =
     (case ts of
        TOp c # rest \<Rightarrow>
          if c \<noteq> CHR ''+'' \<and> c \<noteq> CHR ''-'' then Inr (v, ts)
          else (case parseTerm scope field rest of
                  Inl e \<Rightarrow> Inl e
                | Inr (rhs, rest') \<Rightarrow>
                    (case applyIntOp v c rhs field of
                       Inl e \<Rightarrow> Inl e
                     | Inr v' \<Rightarrow> parseExpressionLoop scope field v' rest'))
      | _ \<Rightarrow> Inr (v, ts))"
| "parseTerm scope field ts =
     (case parseFactor scope field ts of
        Inl e \<Rightarrow> Inl e
      | Inr (v, rest) \<Rightarrow> parseTermLoop scope field v rest)"
| "parseTermLoop scope field v ts =
     (case ts of
        TOp c # rest \<Rightarrow>
          if c \<noteq> CHR ''*'' \<and> c \<noteq> CHR ''/'' then Inr (v, ts)
          else (case parseFactor scope field rest of
                  Inl e \<Rightarrow> Inl e
                | Inr (rhs, rest') \<Rightarrow>
                    (case applyIntOp v c rhs field of
                       Inl e \<Rightarrow> Inl e
                     | Inr v' \<Rightarrow> parseTermLoop scope field v' rest'))
      | _ \<Rightarrow> Inr (v, ts))"
| "parseFactor scope field ts =
     (case ts of
        [] \<Rightarrow> Inl UnexpectedEnd
      | TOp c # rest \<Rightarrow>
          if c = CHR ''+'' \<or> c = CHR ''-'' then
            (case parseFactor scope field rest of
               Inl e \<Rightarrow> Inl e
             | Inr (rhs, rest') \<Rightarrow> Inr (if c = CHR ''-'' then - rhs else rhs, rest'))
          else Inl UnexpectedToken
      | TNumber n # rest \<Rightarrow>
          (case finite_number n of Inl e \<Rightarrow> Inl e | Inr v \<Rightarrow> Inr (v, rest))
      | TIdent name # rest \<Rightarrow>
          (case scope name of
             None \<Rightarrow>
               if inherited name then Inl (InheritedMember name)
               else Inl (UnknownVariable name)
           | Some (SStr s) \<Rightarrow>
               if is_integer_text (trim s) then
                 (case finite_number (Number_parseInt (trim s)) of
                    Inl e \<Rightarrow> Inl e
                  | Inr v \<Rightarrow> Inr (v, rest))
               else Inl (NonNumericVariable name)
           | Some (SNum v) \<Rightarrow> Inr (v, rest))
      | TLparen # rest \<Rightarrow>
          (case parseExpression scope field rest of
             Inl e \<Rightarrow> Inl e
           | Inr (inner, rest') \<Rightarrow>
               (case rest' of
                  TRparen # rest'' \<Rightarrow> Inr (inner, rest'')
                | _ \<Rightarrow> Inl MissingClosingParen))
      | TRparen # rest \<Rightarrow> Inl UnexpectedToken)"
  by pat_completeness auto

lemma parse_length_dom:
  "parseExpression_parseExpressionLoop_parseTerm_parseTermLoop_parseFactor_dom
     (Inl (Inl (scope, field, ts))) \<Longrightarrow>
   (\<forall>v r. parseExpression scope field ts = Inr (v, r) \<longrightarrow> length r < length ts)"
  "parseExpression_parseExpressionLoop_parseTerm_parseTermLoop_parseFactor_dom
     (Inl (Inr (scope, field, v0, ts))) \<Longrightarrow>
   (\<forall>v r. parseExpressionLoop scope field v0 ts = Inr (v, r) \<longrightarrow> length r \<le> length ts)"
  "parseExpression_parseExpressionLoop_parseTerm_parseTermLoop_parseFactor_dom
     (Inr (Inl (scope, field, ts))) \<Longrightarrow>
   (\<forall>v r. parseTerm scope field ts = Inr (v, r) \<longrightarrow> length r < length ts)"
  "parseExpression_parseExpressionLoop_parseTerm_parseTermLoop_parseFactor_dom
     (Inr (Inr (Inl (scope, field, v0, ts)))) \<Longrightarrow>
   (\<forall>v r. parseTermLoop scope field v0 ts = Inr (v, r) \<longrightarrow> length r \<le> length ts)"
  "parseExpression_parseExpressionLoop_parseTerm_parseTermLoop_parseFactor_dom
     (Inr (Inr (Inr (scope, field, ts)))) \<Longrightarrow>
   (\<forall>v r. parseFactor scope field ts = Inr (v, r) \<longrightarrow> length r < length ts)"
proof (induct rule: parseExpression_parseExpressionLoop_parseTerm_parseTermLoop_parseFactor.pinduct)
  case (1 scope field ts)
  then show ?case
    by (fastforce simp: parseExpression.psimps split: sum.splits prod.splits)
next
  case (2 scope field v ts)
  then show ?case
    by (fastforce simp: parseExpressionLoop.psimps
        split: sum.splits prod.splits list.splits ExprToken.splits if_splits)
next
  case (3 scope field ts)
  then show ?case
    by (fastforce simp: parseTerm.psimps split: sum.splits prod.splits)
next
  case (4 scope field v ts)
  then show ?case
    by (fastforce simp: parseTermLoop.psimps
        split: sum.splits prod.splits list.splits ExprToken.splits if_splits)
next
  case (5 scope field ts)
  then show ?case
    by (fastforce simp: parseFactor.psimps
        split: sum.splits prod.splits list.splits ExprToken.splits if_splits option.splits
          ScopeValue.splits)
qed

termination parseExpression
  apply (relation "measures [
     (\<lambda>x. case x of
        Inl (Inl (scope, field, ts)) \<Rightarrow> length ts
      | Inl (Inr (scope, field, v, ts)) \<Rightarrow> length ts
      | Inr (Inl (scope, field, ts)) \<Rightarrow> length ts
      | Inr (Inr (Inl (scope, field, v, ts))) \<Rightarrow> length ts
      | Inr (Inr (Inr (scope, field, ts))) \<Rightarrow> length ts),
     (\<lambda>x. case x of
        Inl (Inl a) \<Rightarrow> 4
      | Inl (Inr a) \<Rightarrow> 3
      | Inr (Inl a) \<Rightarrow> 2
      | Inr (Inr (Inl a)) \<Rightarrow> 1
      | Inr (Inr (Inr a)) \<Rightarrow> 0)]")
  apply (auto dest: parse_length_dom)
  done

declare parseExpression.simps [simp del] parseExpressionLoop.simps [simp del]
  parseTerm.simps [simp del] parseTermLoop.simps [simp del] parseFactor.simps [simp del]

definition evaluateIntegerExpression :: "string \<Rightarrow> Scope \<Rightarrow> string \<Rightarrow> err + int" where
  "evaluateIntegerExpression expr scope field =
     (case tokenizeExpression expr of
        Inl e \<Rightarrow> Inl e
      | Inr tokens \<Rightarrow>
          (case parseExpression scope field tokens of
             Inl e \<Rightarrow> Inl e
           | Inr (result, rest) \<Rightarrow> if rest \<noteq> [] then Inl TrailingTokens else Inr result))"


subsection \<open>Coercing values\<close>

text \<open>A JSON number that reads as an infinity fails the test \<^verbatim>\<open>Number.isFinite\<close>, and is no
  string.\<close>

definition evalIntExpr :: "json option \<Rightarrow> Scope \<Rightarrow> string \<Rightarrow> err + int" where
  "evalIntExpr raw scope field =
     (case raw of
        Some (JNum q) \<Rightarrow>
          (case Number_of q of
             Some v \<Rightarrow> Inr (Math_trunc v)
           | None \<Rightarrow> Inl (NotNumberOrExpression field))
      | Some (JStr s) \<Rightarrow>
          (let expr = trim s in
           if expr = [] then Inl (ExpressionIsEmpty field)
           else (case evaluateIntegerExpression expr scope field of
                   Inl e \<Rightarrow> if beyond e then Inl e else Inl (UnsupportedExpression expr field e)
                 | Inr v \<Rightarrow> Inr v))
      | _ \<Rightarrow> Inl (NotNumberOrExpression field))"

text \<open>The \<^verbatim>\<open>catch\<close> of \<^verbatim>\<open>evalCallArgValue\<close> has no condition: every failure of the evaluation
  gives the text. The test \<^verbatim>\<open>scope[text] !== undefined\<close> holds for a binding of the scope
  and for a member of \<^verbatim>\<open>Object.prototype\<close>, which is then the result.\<close>

definition evalCallArgValue :: "json option \<Rightarrow> Scope \<Rightarrow> string \<Rightarrow> err + ScopeValue" where
  "evalCallArgValue raw scope field =
     (case raw of
        Some (JNum q) \<Rightarrow>
          (case Number_of q of
             Some v \<Rightarrow> Inr (SNum (Math_trunc v))
           | None \<Rightarrow> Inl (NotNumberOrString field))
      | Some (JStr s) \<Rightarrow>
          (let text = trim s in
           if text = [] then Inl (CannotBeEmpty field)
           else (case (if is_identifier text then scope text else None) of
                   Some bound \<Rightarrow> Inr bound
                 | None \<Rightarrow>
                     if is_identifier text \<and> inherited text then Inl (InheritedMember text)
                     else
                       (case evaluateIntegerExpression text scope field of
                          Inl e \<Rightarrow> if beyond e then Inl e else Inr (SStr text)
                        | Inr v \<Rightarrow> Inr (SNum v))))
      | _ \<Rightarrow> Inl (NotNumberOrString field))"

definition json_of_ScopeValue :: "ScopeValue \<Rightarrow> json" where
  "json_of_ScopeValue v = (case v of SNum n \<Rightarrow> JNum (of_int n) | SStr s \<Rightarrow> JStr s)"

definition resolveScopedValue :: "json option \<Rightarrow> Scope \<Rightarrow> err + json option" where
  "resolveScopedValue raw scope =
     (case raw of
        Some (JStr s) \<Rightarrow>
          (let key = trim s in
           if \<not> is_identifier key then Inr raw
           else (case scope key of
                   None \<Rightarrow> if inherited key then Inl (InheritedMember key) else Inr raw
                 | Some scoped \<Rightarrow> Inr (Some (json_of_ScopeValue scoped))))
      | _ \<Rightarrow> Inr raw)"

subsection \<open>Block types\<close>

definition MAX_BLOCKS :: nat where "MAX_BLOCKS = 10000"
definition MAX_EXECUTED_STEPS :: nat where "MAX_EXECUTED_STEPS = 50000"
definition MAX_CALL_DEPTH :: nat where "MAX_CALL_DEPTH = 24"
definition MAX_CALLS :: nat where "MAX_CALLS = 500"

definition DEFAULT_BLOCK_TYPE :: string where
  "DEFAULT_BLOCK_TYPE = ''minecraft:stone''"

text \<open>The catalog the module starts with.\<close>

definition DEFAULT_ALLOWED_BLOCK_TYPES :: "string list" where
  "DEFAULT_ALLOWED_BLOCK_TYPES =
     [''minecraft:stone'', ''minecraft:cobblestone'', ''minecraft:stone_bricks'',
      ''minecraft:bricks'', ''minecraft:oak_planks'', ''minecraft:oak_log'',
      ''minecraft:oak_leaves'', ''minecraft:glass'', ''minecraft:glass_pane'',
      ''minecraft:oak_stairs'', ''minecraft:oak_slab'', ''minecraft:grass_block'',
      ''minecraft:dirt'', ''minecraft:sandstone'', ''minecraft:smooth_stone'',
      ''minecraft:lantern'', ''minecraft:torch'']"

definition pickFallbackBlockType :: "string list \<Rightarrow> string" where
  "pickFallbackBlockType catalog =
     (if DEFAULT_BLOCK_TYPE \<in> set catalog then DEFAULT_BLOCK_TYPE
      else (case catalog of [] \<Rightarrow> DEFAULT_BLOCK_TYPE | first # others \<Rightarrow> first))"

text \<open>The identifier \<^verbatim>\<open>normalizeBlockType\<close> looks up in the catalog.\<close>

definition normalized_identifier :: "string \<Rightarrow> string" where
  "normalized_identifier s =
     (let blockType = toLowerCase (trim s);
          blockType = (if blockType = [] then DEFAULT_BLOCK_TYPE else blockType);
          blockType = replace_hyphens (replace_spaces blockType)
      in if \<not> startsWith blockType ''minecraft:'' then ''minecraft:'' @ blockType else blockType)"

definition normalizeBlockType :: "string list \<Rightarrow> json option \<Rightarrow> Scope \<Rightarrow> err + string" where
  "normalizeBlockType catalog raw scope =
     (case (case resolveScopedValue raw scope of
              Inl e \<Rightarrow> Inl e
            | Inr None \<Rightarrow> Inr DEFAULT_BLOCK_TYPE
            | Inr (Some JNull) \<Rightarrow> Inr DEFAULT_BLOCK_TYPE
            | Inr (Some resolved) \<Rightarrow> js_String resolved) of
        Inl e \<Rightarrow> Inl e
      | Inr s \<Rightarrow>
          (let blockType = normalized_identifier s in
           if blockType \<notin> set catalog then Inr (pickFallbackBlockType catalog)
           else Inr blockType))"

subsection \<open>Blocks\<close>

record Block =
  block_x :: int
  block_y :: int
  block_z :: int
  blockType :: string

definition normalizeCompactBlock ::
  "string list \<Rightarrow> (string \<times> json) list \<Rightarrow> Scope \<Rightarrow> err + Block" where
  "normalizeCompactBlock catalog step scope =
     (case evalIntExpr (map_of step ''x'') scope ''place.x'' of
        Inl e \<Rightarrow> Inl e
      | Inr vx \<Rightarrow>
     (case evalIntExpr (map_of step ''y'') scope ''place.y'' of
        Inl e \<Rightarrow> Inl e
      | Inr vy \<Rightarrow>
     (case evalIntExpr (map_of step ''z'') scope ''place.z'' of
        Inl e \<Rightarrow> Inl e
      | Inr vz \<Rightarrow>
     (case normalizeBlockType catalog (map_of step ''blockType'') scope of
        Inl e \<Rightarrow> Inl e
      | Inr bt \<Rightarrow> Inr \<lparr>block_x = vx, block_y = vy, block_z = vz, blockType = bt\<rparr>))))"

definition legacy_field :: "nat \<Rightarrow> string \<Rightarrow> string" where
  "legacy_field idx coordinate = ''blocks['' @ string_of_nat idx @ ''].'' @ coordinate"

text \<open>The callback of \<^verbatim>\<open>rawBlocks.map\<close>, on one entry and its index.\<close>

definition normalizeLegacyBlock :: "string list \<Rightarrow> json \<Rightarrow> nat \<Rightarrow> err + Block" where
  "normalizeLegacyBlock catalog raw idx =
     (case raw of
        JObj entry \<Rightarrow>
          (case evalIntExpr (map_of entry ''x'') Map.empty (legacy_field idx ''x'') of
             Inl e \<Rightarrow> Inl e
           | Inr vx \<Rightarrow>
          (case evalIntExpr (map_of entry ''y'') Map.empty (legacy_field idx ''y'') of
             Inl e \<Rightarrow> Inl e
           | Inr vy \<Rightarrow>
          (case evalIntExpr (map_of entry ''z'') Map.empty (legacy_field idx ''z'') of
             Inl e \<Rightarrow> Inl e
           | Inr vz \<Rightarrow>
          (case normalizeBlockType catalog (map_of entry ''blockType'') Map.empty of
             Inl e \<Rightarrow> Inl e
           | Inr bt \<Rightarrow> Inr \<lparr>block_x = vx, block_y = vy, block_z = vz, blockType = bt\<rparr>))))
      | _ \<Rightarrow> Inl (LegacyNotObject idx))"

text \<open>\<^verbatim>\<open>rawBlocks.map\<close> from index \<open>idx\<close> on: the entries in order, stopping at the first
  that throws.\<close>

fun normalizeLegacyBlocksFrom :: "string list \<Rightarrow> nat \<Rightarrow> json list \<Rightarrow> err + Block list" where
  "normalizeLegacyBlocksFrom catalog idx [] = Inr []"
| "normalizeLegacyBlocksFrom catalog idx (raw # rest) =
     (case normalizeLegacyBlock catalog raw idx of
        Inl e \<Rightarrow> Inl e
      | Inr b \<Rightarrow>
          (case normalizeLegacyBlocksFrom catalog (idx + 1) rest of
             Inl e \<Rightarrow> Inl e
           | Inr bs \<Rightarrow> Inr (b # bs)))"

definition normalizeLegacyBlocks :: "string list \<Rightarrow> json list \<Rightarrow> err + Block list" where
  "normalizeLegacyBlocks catalog rawBlocks = normalizeLegacyBlocksFrom catalog 0 rawBlocks"

subsection \<open>The interpreter\<close>

text \<open>
  The array \<^verbatim>\<open>out\<close> and the object \<^verbatim>\<open>budget\<close> are created once for an expansion and
  every call updates them in place: here they are one state, which every function takes
  and returns. The result of a call is the exception it threw, if any, and the state it
  left.
\<close>

record Exec =
  out :: "Block list"
  executedSteps :: nat
  calls :: nat

type_synonym Outcome = "err option \<times> Exec"

type_synonym Defs = "string \<rightharpoonup> (string \<times> json) list"

definition call_field :: "string \<Rightarrow> string \<Rightarrow> string" where
  "call_field name key = ''call.'' @ name @ ''.args.'' @ key"

text \<open>\<^verbatim>\<open>args[key] = v\<close>, for a number or a string \<open>v\<close>.\<close>

definition assign :: "Scope \<Rightarrow> string \<Rightarrow> ScopeValue \<Rightarrow> Scope" where
  "assign args key v = (if key = ''__proto__'' then args else args(key \<mapsto> v))"

text \<open>The loop over \<^verbatim>\<open>def.params\<close>, on the parameters left and the \<^verbatim>\<open>args\<close> so far. The
  test \<^verbatim>\<open>key in rawArgs\<close> holds for a member of \<^verbatim>\<open>Object.prototype\<close> too, and
  \<^verbatim>\<open>rawArgs[key]\<close> is then neither a number nor a string.\<close>

fun bindParams ::
  "json list \<Rightarrow> (string \<times> json) list \<Rightarrow> Scope \<Rightarrow> string \<Rightarrow> Scope \<Rightarrow> err + Scope" where
  "bindParams [] rawArgs scope name args = Inr args"
| "bindParams (param # rest) rawArgs scope name args =
     (case String_or_empty (Some param) of
        Inl e \<Rightarrow> Inl e
      | Inr s \<Rightarrow>
          (let key = trim s in
           if key = [] then bindParams rest rawArgs scope name args
           else if map_of rawArgs key = None \<and> \<not> inherited key then Inl (MissingArg key name)
           else if map_of rawArgs key = None then Inl (NotNumberOrString (call_field name key))
           else (case evalCallArgValue (map_of rawArgs key) scope (call_field name key) of
                   Inl e \<Rightarrow> Inl e
                 | Inr v \<Rightarrow> bindParams rest rawArgs scope name (assign args key v))))"

text \<open>The loop over \<^verbatim>\<open>Object.entries(rawArgs)\<close>.\<close>

fun bindEntries :: "(string \<times> json) list \<Rightarrow> Scope \<Rightarrow> string \<Rightarrow> Scope \<Rightarrow> err + Scope" where
  "bindEntries [] scope name args = Inr args"
| "bindEntries ((key, v) # rest) scope name args =
     (case evalCallArgValue (Some v) scope (call_field name key) of
        Inl e \<Rightarrow> Inl e
      | Inr a \<Rightarrow> bindEntries rest scope name (assign args key a))"

definition callArgs ::
  "(string \<times> json) list \<Rightarrow> (string \<times> json) list \<Rightarrow> Scope \<Rightarrow> string \<Rightarrow> err + Scope" where
  "callArgs def step scope name =
     (let rawArgs = (case map_of step ''args'' of Some (JObj kvs) \<Rightarrow> kvs | _ \<Rightarrow> []) in
      case map_of def ''params'' of
        Some (JArr params) \<Rightarrow> bindParams params rawArgs scope name Map.empty
      | _ \<Rightarrow> bindEntries rawArgs scope name Map.empty)"

text \<open>
  \<open>executeStepsLoop\<close> is the loop of \<^verbatim>\<open>executeSteps\<close> over the steps left; \<open>forLoopUp\<close> and
  \<open>forLoopDown\<close> are the two loops of \<^verbatim>\<open>executeForStep\<close>, from the value \<open>i\<close> of the loop
  variable on. Their conditions repeat the sign of the stride under which the source
  enters each loop. The next value is the sum \<^verbatim>\<open>i + stride\<close> as the host rounds it. An
  infinite sum is past the bound and ends the loop. A sum that rounds to \<open>i\<close> again
  repeats the iteration with the value it had: for ever, when the iteration has left
  \<open>executedSteps\<close> as it was (it has executed no step, and the next one starts from the
  same state).
\<close>

function executeSteps ::
    "string list \<Rightarrow> Defs \<Rightarrow> json list \<Rightarrow> Scope \<Rightarrow> Exec \<Rightarrow> nat \<Rightarrow> Outcome"
  and executeStepsLoop ::
    "string list \<Rightarrow> Defs \<Rightarrow> json list \<Rightarrow> Scope \<Rightarrow> Exec \<Rightarrow> nat \<Rightarrow> Outcome"
  and executeForStep ::
    "string list \<Rightarrow> Defs \<Rightarrow> (string \<times> json) list \<Rightarrow> Scope \<Rightarrow> Exec \<Rightarrow> nat \<Rightarrow> Outcome"
  and forLoopUp ::
    "string list \<Rightarrow> Defs \<Rightarrow> json list \<Rightarrow> Scope \<Rightarrow> string \<Rightarrow> int \<Rightarrow> int \<Rightarrow> int \<Rightarrow> Exec \<Rightarrow> nat
      \<Rightarrow> Outcome"
  and forLoopDown ::
    "string list \<Rightarrow> Defs \<Rightarrow> json list \<Rightarrow> Scope \<Rightarrow> string \<Rightarrow> int \<Rightarrow> int \<Rightarrow> int \<Rightarrow> Exec \<Rightarrow> nat
      \<Rightarrow> Outcome"
  and executeCallStep ::
    "string list \<Rightarrow> Defs \<Rightarrow> (string \<times> json) list \<Rightarrow> Scope \<Rightarrow> Exec \<Rightarrow> nat \<Rightarrow> Outcome"
where
  "executeSteps catalog defs steps scope st callDepth =
     (if callDepth > MAX_CALL_DEPTH then (Some CallDepthExceeded, st)
      else executeStepsLoop catalog defs steps scope st callDepth)"
| "executeStepsLoop catalog defs steps scope st callDepth =
     (case steps of
        [] \<Rightarrow> (None, st)
      | rawStep # rest \<Rightarrow>
          if length (out st) \<ge> MAX_BLOCKS then (None, st)
          else
            (let st1 = st\<lparr>executedSteps := executedSteps st + 1\<rparr> in
             if executedSteps st1 > MAX_EXECUTED_STEPS then (Some ExecutedStepsExceeded, st1)
             else
               (case rawStep of
                  JObj step \<Rightarrow>
                    (case String_or_empty (map_of step ''op'') of
                       Inl e \<Rightarrow> (Some e, st1)
                     | Inr s \<Rightarrow>
                         (let op = toLowerCase s in
                          if op = ''place'' \<or> op = ''block'' then
                            (case normalizeCompactBlock catalog step scope of
                               Inl e \<Rightarrow> (Some e, st1)
                             | Inr b \<Rightarrow>
                                 executeStepsLoop catalog defs rest scope
                                   (st1\<lparr>out := out st1 @ [b]\<rparr>) callDepth)
                          else if op = ''for'' then
                            (case executeForStep catalog defs step scope st1 callDepth of
                               (Some e, st2) \<Rightarrow> (Some e, st2)
                             | (None, st2) \<Rightarrow>
                                 executeStepsLoop catalog defs rest scope st2 callDepth)
                          else if op = ''call'' then
                            (case executeCallStep catalog defs step scope st1 callDepth of
                               (Some e, st2) \<Rightarrow> (Some e, st2)
                             | (None, st2) \<Rightarrow>
                                 executeStepsLoop catalog defs rest scope st2 callDepth)
                          else (Some (UnsupportedOp op), st1)))
                | _ \<Rightarrow> (Some StepNotObject, st1))))"
| "executeForStep catalog defs step scope st callDepth =
     (case String_or_empty (map_of step ''var'') of
        Inl e \<Rightarrow> (Some e, st)
      | Inr s \<Rightarrow>
          (let varName = trim s in
           if varName = [] then (Some ForMissingVar, st)
           else
             (case evalIntExpr (map_of step ''from'') scope ''for.from'' of
                Inl e \<Rightarrow> (Some e, st)
              | Inr from \<Rightarrow>
             (case evalIntExpr (map_of step ''to'') scope ''for.to'' of
                Inl e \<Rightarrow> (Some e, st)
              | Inr to \<Rightarrow>
             (case (case map_of step ''step'' of
                      None \<Rightarrow> Inr 1
                    | Some v \<Rightarrow> evalIntExpr (Some v) scope ''for.step'') of
                Inl e \<Rightarrow> (Some e, st)
              | Inr stride \<Rightarrow>
                  if stride = 0 then (Some ForStepZero, st)
                  else
                    (case map_of step ''steps'' of
                       Some (JArr body) \<Rightarrow>
                         if stride > 0 then
                           forLoopUp catalog defs body scope varName from to stride st callDepth
                         else
                           forLoopDown catalog defs body scope varName from to stride st callDepth
                     | _ \<Rightarrow> (Some ForMissingSteps, st)))))))"
| "forLoopUp catalog defs body scope varName i to stride st callDepth =
     (if 0 < stride \<and> i \<le> to then
        (case executeSteps catalog defs body (scope(varName \<mapsto> SNum i)) st (callDepth + 1) of
           (Some e, st1) \<Rightarrow> (Some e, st1)
         | (None, st1) \<Rightarrow>
             if length (out st1) \<ge> MAX_BLOCKS then (None, st1)
             else
               (case Number_int (i + stride) of
                  None \<Rightarrow> (None, st1)
                | Some next \<Rightarrow>
                    if i < next then
                      forLoopUp catalog defs body scope varName next to stride st1 callDepth
                    else if next = i \<and> executedSteps st < executedSteps st1 \<and>
                        executedSteps st1 \<le> MAX_EXECUTED_STEPS then
                      forLoopUp catalog defs body scope varName next to stride st1 callDepth
                    else (Some NeverReturns, st1)))
      else (None, st))"
| "forLoopDown catalog defs body scope varName i to stride st callDepth =
     (if stride < 0 \<and> i \<ge> to then
        (case executeSteps catalog defs body (scope(varName \<mapsto> SNum i)) st (callDepth + 1) of
           (Some e, st1) \<Rightarrow> (Some e, st1)
         | (None, st1) \<Rightarrow>
             if length (out st1) \<ge> MAX_BLOCKS then (None, st1)
             else
               (case Number_int (i + stride) of
                  None \<Rightarrow> (None, st1)
                | Some next \<Rightarrow>
                    if next < i then
                      forLoopDown catalog defs body scope varName next to stride st1 callDepth
                    else if next = i \<and> executedSteps st < executedSteps st1 \<and>
                        executedSteps st1 \<le> MAX_EXECUTED_STEPS then
                      forLoopDown catalog defs body scope varName next to stride st1 callDepth
                    else (Some NeverReturns, st1)))
      else (None, st))"
| "executeCallStep catalog defs step scope st callDepth =
     (let st1 = st\<lparr>calls := calls st + 1\<rparr> in
      if calls st1 > MAX_CALLS then (Some CallsExceeded, st1)
      else
        (case String_or_empty (map_of step ''name'') of
           Inl e \<Rightarrow> (Some e, st1)
         | Inr s \<Rightarrow>
             (let name = trim s in
              if name = [] then (Some CallMissingName, st1)
              else
                (case defs name of
                   None \<Rightarrow> (Some (UndefinedFunction name), st1)
                 | Some def \<Rightarrow>
                     (case map_of def ''steps'' of
                        Some (JArr body) \<Rightarrow>
                          (case callArgs def step scope name of
                             Inl e \<Rightarrow> (Some e, st1)
                           | Inr args \<Rightarrow>
                               executeSteps catalog defs body (scope ++ args) st1 (callDepth + 1))
                      | _ \<Rightarrow> (Some (FunctionInvalidSteps name), st1))))))"
  by pat_completeness auto
termination executeSteps
  apply (relation "measures [
     (\<lambda>x. case x of
        Inl (Inl (catalog, defs, steps, scope, st, callDepth)) \<Rightarrow> 25 - callDepth
      | Inl (Inr (Inl (catalog, defs, steps, scope, st, callDepth))) \<Rightarrow> 24 - callDepth
      | Inl (Inr (Inr (catalog, defs, step, scope, st, callDepth))) \<Rightarrow> 24 - callDepth
      | Inr (Inl (catalog, defs, body, scope, varName, i, to, stride, st, callDepth)) \<Rightarrow>
          24 - callDepth
      | Inr (Inr (Inl (catalog, defs, body, scope, varName, i, to, stride, st, callDepth))) \<Rightarrow>
          24 - callDepth
      | Inr (Inr (Inr (catalog, defs, step, scope, st, callDepth))) \<Rightarrow> 24 - callDepth),
     (\<lambda>x. case x of
        Inl (Inl a) \<Rightarrow> 0
      | Inl (Inr (Inl a)) \<Rightarrow> 3
      | Inl (Inr (Inr a)) \<Rightarrow> 2
      | Inr (Inl a) \<Rightarrow> 1
      | Inr (Inr (Inl a)) \<Rightarrow> 1
      | Inr (Inr (Inr a)) \<Rightarrow> 1),
     (\<lambda>x. case x of
        Inl (Inl a) \<Rightarrow> 0
      | Inl (Inr (Inl (catalog, defs, steps, scope, st, callDepth))) \<Rightarrow> length steps
      | Inl (Inr (Inr a)) \<Rightarrow> 0
      | Inr (Inl (catalog, defs, body, scope, varName, i, to, stride, st, callDepth)) \<Rightarrow>
          nat (to - i + 1)
      | Inr (Inr (Inl (catalog, defs, body, scope, varName, i, to, stride, st, callDepth))) \<Rightarrow>
          nat (i - to + 1)
      | Inr (Inr (Inr a)) \<Rightarrow> 0),
     (\<lambda>x. case x of
        Inl (Inl a) \<Rightarrow> 0
      | Inl (Inr (Inl a)) \<Rightarrow> 0
      | Inl (Inr (Inr a)) \<Rightarrow> 0
      | Inr (Inl (catalog, defs, body, scope, varName, i, to, stride, st, callDepth)) \<Rightarrow>
          MAX_EXECUTED_STEPS + 1 - executedSteps st
      | Inr (Inr (Inl (catalog, defs, body, scope, varName, i, to, stride, st, callDepth))) \<Rightarrow>
          MAX_EXECUTED_STEPS + 1 - executedSteps st
      | Inr (Inr (Inr a)) \<Rightarrow> 0)]")
  apply (auto simp: MAX_CALL_DEPTH_def)
  done

declare executeSteps.simps [simp del] executeStepsLoop.simps [simp del]
  executeForStep.simps [simp del] forLoopUp.simps [simp del] forLoopDown.simps [simp del]
  executeCallStep.simps [simp del]

subsection \<open>Documents\<close>

text \<open>The loop over \<^verbatim>\<open>program.defs\<close>, on the entries left and the table so far.\<close>

fun collectDefs :: "json list \<Rightarrow> Defs \<Rightarrow> err + Defs" where
  "collectDefs [] defs = Inr defs"
| "collectDefs (rawDef # rest) defs =
     (case rawDef of
        JObj d \<Rightarrow>
          (case String_or_empty (map_of d ''name'') of
             Inl e \<Rightarrow> Inl e
           | Inr s \<Rightarrow>
               (let name = trim s in
                if name = [] then Inl DefinitionMissingName
                else if \<not> isArray (map_of d ''steps'') then Inl (DefinitionMissingSteps name)
                else collectDefs rest (defs(name \<mapsto> d))))
      | _ \<Rightarrow> Inl DefinitionNotObject)"

definition expandCompactProgram :: "string list \<Rightarrow> (string \<times> json) list \<Rightarrow> err + Block list" where
  "expandCompactProgram catalog program =
     (case (case map_of program ''defs'' of
              Some (JArr ds) \<Rightarrow> collectDefs ds Map.empty
            | _ \<Rightarrow> Inr Map.empty) of
        Inl e \<Rightarrow> Inl e
      | Inr defs \<Rightarrow>
          (case map_of program ''steps'' of
             Some (JArr steps) \<Rightarrow>
               (case executeSteps catalog defs steps Map.empty
                       \<lparr>out = [], executedSteps = 0, calls = 0\<rparr> 0 of
                  (Some e, st) \<Rightarrow> Inl e
                | (None, st) \<Rightarrow> Inr (out st))
           | _ \<Rightarrow> Inl CompactMissingSteps))"

text \<open>\<^verbatim>\<open>normalizeLegacyBlocks(raw.blocks).slice(0, MAX_BLOCKS)\<close>\<close>

definition legacyBlocks :: "string list \<Rightarrow> json list \<Rightarrow> err + Block list" where
  "legacyBlocks catalog rawBlocks =
     (case normalizeLegacyBlocks catalog rawBlocks of
        Inl e \<Rightarrow> Inl e
      | Inr blocks \<Rightarrow> Inr (take MAX_BLOCKS blocks))"

definition parseBlocksFromResponse :: "string list \<Rightarrow> json \<Rightarrow> err + Block list" where
  "parseBlocksFromResponse catalog raw =
     (case raw of
        JObj doc \<Rightarrow>
          (let hasCompactProgram = isArray (map_of doc ''steps'') \<or> isArray (map_of doc ''defs'') in
           if hasCompactProgram then
             (case expandCompactProgram catalog doc of
                Inr blocks \<Rightarrow> Inr (take MAX_BLOCKS blocks)
              | Inl e \<Rightarrow>
                  if beyond e then Inl e
                  else
                    (case map_of doc ''blocks'' of
                       Some (JArr rawBlocks) \<Rightarrow> legacyBlocks catalog rawBlocks
                     | _ \<Rightarrow> Inl e))
           else
             (case map_of doc ''blocks'' of
                Some (JArr rawBlocks) \<Rightarrow> legacyBlocks catalog rawBlocks
              | _ \<Rightarrow> Inl MissingStepsDefsOrBlocks))
      | _ \<Rightarrow> Inl ResponseNotObject)"

subsection \<open>The grammar of the specification\<close>

text \<open>
  The grammar the specification gives for expressions, as derivation rules over tokens:
  \<^verbatim>\<open>expr := term (("+"|"-") term)*\<close>, \<^verbatim>\<open>term := factor (("*"|"/") factor)*\<close>,
  \<^verbatim>\<open>factor := ("+"|"-") factor | number | identifier | "(" expr ")"\<close>.
  \<open>expr_g ts e r\<close> reads: a prefix of the tokens \<open>ts\<close> is an expression with syntax tree \<open>e\<close>,
  and \<open>r\<close> are the tokens after it. A repetition groups to the left: \<open>expr_tail e0 ts e r\<close>
  continues the tree \<open>e0\<close> read so far.
\<close>

datatype iexpr =
    Number "int option"
  | Identifier string
  | Unary char iexpr
  | Binary iexpr char iexpr

inductive expr_g :: "ExprToken list \<Rightarrow> iexpr \<Rightarrow> ExprToken list \<Rightarrow> bool"
  and expr_tail :: "iexpr \<Rightarrow> ExprToken list \<Rightarrow> iexpr \<Rightarrow> ExprToken list \<Rightarrow> bool"
  and term_g :: "ExprToken list \<Rightarrow> iexpr \<Rightarrow> ExprToken list \<Rightarrow> bool"
  and term_tail :: "iexpr \<Rightarrow> ExprToken list \<Rightarrow> iexpr \<Rightarrow> ExprToken list \<Rightarrow> bool"
  and factor_g :: "ExprToken list \<Rightarrow> iexpr \<Rightarrow> ExprToken list \<Rightarrow> bool"
where
  g_expr: "term_g ts e0 r0 \<Longrightarrow> expr_tail e0 r0 e r \<Longrightarrow> expr_g ts e r"
| g_expr_done: "expr_tail e r e r"
| g_expr_more: "c = CHR ''+'' \<or> c = CHR ''-'' \<Longrightarrow> term_g ts e1 r1 \<Longrightarrow>
     expr_tail (Binary e0 c e1) r1 e r \<Longrightarrow> expr_tail e0 (TOp c # ts) e r"
| g_term: "factor_g ts e0 r0 \<Longrightarrow> term_tail e0 r0 e r \<Longrightarrow> term_g ts e r"
| g_term_done: "term_tail e r e r"
| g_term_more: "c = CHR ''*'' \<or> c = CHR ''/'' \<Longrightarrow> factor_g ts e1 r1 \<Longrightarrow>
     term_tail (Binary e0 c e1) r1 e r \<Longrightarrow> term_tail e0 (TOp c # ts) e r"
| g_signed: "c = CHR ''+'' \<or> c = CHR ''-'' \<Longrightarrow> factor_g ts e r \<Longrightarrow>
     factor_g (TOp c # ts) (Unary c e) r"
| g_number: "factor_g (TNumber n # r) (Number n) r"
| g_identifier: "factor_g (TIdent x # r) (Identifier x) r"
| g_parens: "expr_g ts e (TRparen # r) \<Longrightarrow> factor_g (TLparen # ts) e r"

text \<open>The number an identifier stands for: its binding, a string read as a decimal
  integer.\<close>

definition scope_integer :: "Scope \<Rightarrow> string \<Rightarrow> int option" where
  "scope_integer scope x =
     (case scope x of
        None \<Rightarrow> None
      | Some (SNum v) \<Rightarrow> Some v
      | Some (SStr s) \<Rightarrow>
          if is_integer_text (trim s) then Number_parseInt (trim s) else None)"

text \<open>
  The value of a syntax tree in the arithmetic of the host: every sum, difference and
  product is the double nearest to the exact result, every quotient the double nearest
  to the exact quotient, with its fraction cut off. \<open>None\<close> when an identifier stands for
  no number, a divisor is zero, or a number is infinite.
\<close>

fun tree_value :: "Scope \<Rightarrow> iexpr \<Rightarrow> int option" where
  "tree_value scope (Number n) = n"
| "tree_value scope (Identifier x) = scope_integer scope x"
| "tree_value scope (Unary c e) =
     (case tree_value scope e of
        None \<Rightarrow> None
      | Some v \<Rightarrow> Some (if c = CHR ''-'' then - v else v))"
| "tree_value scope (Binary a c b) =
     (case tree_value scope a of
        None \<Rightarrow> None
      | Some x \<Rightarrow>
         (case tree_value scope b of
            None \<Rightarrow> None
          | Some y \<Rightarrow>
              if c = CHR ''+'' then Number_int (x + y)
              else if c = CHR ''-'' then Number_int (x - y)
              else if c = CHR ''*'' then Number_int (x * y)
              else if c = CHR ''/'' \<and> y \<noteq> 0 then
                map_option Math_trunc (Number_of (of_int x / of_int y))
              else None))"

text \<open>
  The value of a syntax tree in the arithmetic of the integers. The quotient is the one
  rounded toward zero: the quotient of the magnitudes, with the sign of the exact
  quotient. An identifier bound to a string stands for the integer that the string
  denotes.
\<close>

definition exact_integer :: "Scope \<Rightarrow> string \<Rightarrow> int option" where
  "exact_integer scope x =
     (case scope x of
        None \<Rightarrow> None
      | Some (SNum v) \<Rightarrow> Some v
      | Some (SStr s) \<Rightarrow>
          if is_integer_text (trim s) then Some (integer_of_text (trim s)) else None)"

fun exact_value :: "Scope \<Rightarrow> iexpr \<Rightarrow> int option" where
  "exact_value scope (Number n) = n"
| "exact_value scope (Identifier x) = exact_integer scope x"
| "exact_value scope (Unary c e) =
     (case exact_value scope e of
        None \<Rightarrow> None
      | Some v \<Rightarrow> Some (if c = CHR ''-'' then - v else v))"
| "exact_value scope (Binary a c b) =
     (case exact_value scope a of
        None \<Rightarrow> None
      | Some x \<Rightarrow>
         (case exact_value scope b of
            None \<Rightarrow> None
          | Some y \<Rightarrow>
              if c = CHR ''+'' then Some (x + y)
              else if c = CHR ''-'' then Some (x - y)
              else if c = CHR ''*'' then Some (x * y)
              else if c = CHR ''/'' \<and> y \<noteq> 0 then Some (sgn x * sgn y * (\<bar>x\<bar> div \<bar>y\<bar>))
              else None))"

text \<open>
  The integers of magnitude below \<open>2^53\<close>: each of them is a double, and a numeral that
  reads as one of them denotes it. A tree is safe when the numbers at its leaves and the
  exact values of all its parts are among them.
\<close>

definition safe_integer :: "int \<Rightarrow> bool" where
  "safe_integer n \<longleftrightarrow> \<bar>n\<bar> < 2 ^ 53"

definition safe_value :: "Scope \<Rightarrow> iexpr \<Rightarrow> bool" where
  "safe_value scope e = (case exact_value scope e of None \<Rightarrow> True | Some v \<Rightarrow> safe_integer v)"

fun safe_tree :: "Scope \<Rightarrow> iexpr \<Rightarrow> bool" where
  "safe_tree scope (Number n) = safe_value scope (Number n)"
| "safe_tree scope (Identifier x) = safe_value scope (Identifier x)"
| "safe_tree scope (Unary c e) = safe_tree scope e"
| "safe_tree scope (Binary a c b) =
     (safe_tree scope a \<and> safe_tree scope b \<and> safe_value scope (Binary a c b))"

text \<open>The tokens start with a multiplicative operator, with an additive operator.\<close>

definition starts_mul :: "ExprToken list \<Rightarrow> bool" where
  "starts_mul ts = (case ts of TOp c # rest \<Rightarrow> c = CHR ''*'' \<or> c = CHR ''/'' | _ \<Rightarrow> False)"

definition starts_add :: "ExprToken list \<Rightarrow> bool" where
  "starts_add ts = (case ts of TOp c # rest \<Rightarrow> c = CHR ''+'' \<or> c = CHR ''-'' | _ \<Rightarrow> False)"

subsection \<open>The failures of the evaluator\<close>

text \<open>The characters the tokenizer accepts.\<close>

definition expression_char :: "char \<Rightarrow> bool" where
  "expression_char c \<longleftrightarrow>
     is_digit c \<or> is_ident_char c \<or> c = CHR ''+'' \<or> c = CHR ''-'' \<or> c = CHR ''*'' \<or> c = CHR ''/'' \<or>
     c = CHR ''('' \<or> c = CHR '')'' \<or> is_space c"




text \<open>The two ways in which an evaluation leaves the model: with a number that is not
  finite, and with a member of \<^verbatim>\<open>Object.prototype\<close> under a name that the scope does not
  bind.\<close>

definition evaluator_beyond :: "Scope \<Rightarrow> err \<Rightarrow> bool" where
  "evaluator_beyond scope e =
     (case e of
        NotFinite \<Rightarrow> True
      | InheritedMember x \<Rightarrow> inherited x \<and> scope x = None
      | _ \<Rightarrow> False)"



subsection \<open>Legacy documents\<close>

text \<open>
  The coordinates of a legacy entry, as the specification has them. A coordinate is a
  finite number, and stands for its integer part; or it is a string whose trimmed text
  is an expression of the grammar, read to the last token, without a variable (no
  identifier has a value where no variable is bound), with safe integers in all its
  parts, and stands for the value of the expression in the arithmetic of the integers.
  The code is no part of this definition, but for the tokens.
\<close>

definition coordinate :: "json option \<Rightarrow> int \<Rightarrow> bool" where
  "coordinate raw n =
     (case raw of
        Some (JNum q) \<Rightarrow> map_option Math_trunc (Number_of q) = Some n
      | Some (JStr s) \<Rightarrow>
          (\<exists>tokens e. tokenizeExpression (trim s) = Inr tokens \<and> expr_g tokens e [] \<and>
             safe_tree Map.empty e \<and> exact_value Map.empty e = Some n)
      | _ \<Rightarrow> False)"






text \<open>An entry for the examples: \<^verbatim>\<open>{"x":1,"y":"2*3","z":-5,"blockType":"Glass"}\<close>.\<close>

definition good_entry :: json where
  "good_entry = JObj [(''x'', JNum 1), (''y'', JStr ''2*3''), (''z'', JNum (- 5)),
     (''blockType'', JStr ''Glass'')]"


subsection \<open>The interpreter, in parts\<close>

text \<open>
  Three parts of the functions above, so that the properties can speak of them. The lemmas
  \<open>executeForStep_header\<close>, \<open>executeCallStep_target\<close> and \<open>executeStepsLoop_Cons\<close> show that
  the functions are made of these parts.
\<close>

text \<open>The checks of \<^verbatim>\<open>executeForStep\<close> before its loops: the name of the variable, the two
  bounds, the stride and the body.\<close>

definition forHeader ::
  "(string \<times> json) list \<Rightarrow> Scope \<Rightarrow> err + (string \<times> int \<times> int \<times> int \<times> json list)" where
  "forHeader step scope =
     (case String_or_empty (map_of step ''var'') of
        Inl e \<Rightarrow> Inl e
      | Inr s \<Rightarrow>
          if trim s = [] then Inl ForMissingVar
          else
            (case evalIntExpr (map_of step ''from'') scope ''for.from'' of
               Inl e \<Rightarrow> Inl e
             | Inr from \<Rightarrow>
            (case evalIntExpr (map_of step ''to'') scope ''for.to'' of
               Inl e \<Rightarrow> Inl e
             | Inr to \<Rightarrow>
            (case (case map_of step ''step'' of
                     None \<Rightarrow> Inr 1
                   | Some v \<Rightarrow> evalIntExpr (Some v) scope ''for.step'') of
               Inl e \<Rightarrow> Inl e
             | Inr stride \<Rightarrow>
                 if stride = 0 then Inl ForStepZero
                 else
                   (case map_of step ''steps'' of
                      Some (JArr body) \<Rightarrow> Inr (trim s, from, to, stride, body)
                    | _ \<Rightarrow> Inl ForMissingSteps)))))"

text \<open>The checks of \<^verbatim>\<open>executeCallStep\<close> after the count of calls: the name, the
  definition, its steps and the arguments.\<close>

definition callTarget ::
  "Defs \<Rightarrow> (string \<times> json) list \<Rightarrow> Scope \<Rightarrow> err + (json list \<times> Scope)" where
  "callTarget defs step scope =
     (case String_or_empty (map_of step ''name'') of
        Inl e \<Rightarrow> Inl e
      | Inr s \<Rightarrow>
          if trim s = [] then Inl CallMissingName
          else
            (case defs (trim s) of
               None \<Rightarrow> Inl (UndefinedFunction (trim s))
             | Some def \<Rightarrow>
                 (case map_of def ''steps'' of
                    Some (JArr body) \<Rightarrow>
                      (case callArgs def step scope (trim s) of
                         Inl e \<Rightarrow> Inl e
                       | Inr args \<Rightarrow> Inr (body, args))
                  | _ \<Rightarrow> Inl (FunctionInvalidSteps (trim s)))))"

text \<open>What the loop of \<^verbatim>\<open>executeSteps\<close> does with one step after it has counted it: the
  test \<^verbatim>\<open>isRecord\<close>, the operation, and the three kinds of step.\<close>

definition loop_body :: "string list \<Rightarrow> Defs \<Rightarrow> json \<Rightarrow> Scope \<Rightarrow> Exec \<Rightarrow> nat \<Rightarrow> Outcome" where
  "loop_body catalog defs rawStep scope st callDepth =
     (case rawStep of
        JObj step \<Rightarrow>
          (case String_or_empty (map_of step ''op'') of
             Inl e \<Rightarrow> (Some e, st)
           | Inr s \<Rightarrow>
               (let op = toLowerCase s in
                if op = ''place'' \<or> op = ''block'' then
                  (case normalizeCompactBlock catalog step scope of
                     Inl e \<Rightarrow> (Some e, st)
                   | Inr b \<Rightarrow> (None, st\<lparr>out := out st @ [b]\<rparr>))
                else if op = ''for'' then executeForStep catalog defs step scope st callDepth
                else if op = ''call'' then executeCallStep catalog defs step scope st callDepth
                else (Some (UnsupportedOp op), st)))
      | _ \<Rightarrow> (Some StepNotObject, st))"

subsection \<open>The budget\<close>

text \<open>
  What an execution that starts in the state \<open>st\<close> may do to the two counters: neither
  decreases; from a counter within its ceiling the execution ends at most one past the
  ceiling, and it ends past the ceiling exactly when it throws the error of that ceiling.
\<close>

definition within_budget :: "Exec \<Rightarrow> Outcome \<Rightarrow> bool" where
  "within_budget st r =
     (case r of (res, st') \<Rightarrow>
        executedSteps st \<le> executedSteps st' \<and> calls st \<le> calls st' \<and>
        (executedSteps st \<le> MAX_EXECUTED_STEPS \<longrightarrow>
           executedSteps st' \<le> MAX_EXECUTED_STEPS + 1 \<and>
           (MAX_EXECUTED_STEPS < executedSteps st' \<longleftrightarrow> res = Some ExecutedStepsExceeded)) \<and>
        (calls st \<le> MAX_CALLS \<longrightarrow>
           calls st' \<le> MAX_CALLS + 1 \<and>
           (MAX_CALLS < calls st' \<longleftrightarrow> res = Some CallsExceeded)))"

definition budget_error :: "err \<Rightarrow> bool" where
  "budget_error e \<longleftrightarrow> e = ExecutedStepsExceeded \<or> e = CallsExceeded"

subsection \<open>The \<^verbatim>\<open>for\<close> step of the specification\<close>

text \<open>What a \<^verbatim>\<open>for\<close> step reads in its scope: the name of the variable, trimmed and not
  empty, the two bounds and the stride, which is 1 without \<^verbatim>\<open>step\<close>.\<close>

definition for_step_reads ::
  "(string \<times> json) list \<Rightarrow> Scope \<Rightarrow> string \<Rightarrow> int \<Rightarrow> int \<Rightarrow> int \<Rightarrow> bool" where
  "for_step_reads step scope v a b s \<longleftrightarrow>
     (case String_or_empty (map_of step ''var'') of
        Inl e \<Rightarrow> False
      | Inr text \<Rightarrow> v = trim text \<and> v \<noteq> []) \<and>
     evalIntExpr (map_of step ''from'') scope ''for.from'' = Inr a \<and>
     evalIntExpr (map_of step ''to'') scope ''for.to'' = Inr b \<and>
     (case map_of step ''step'' of
        None \<Rightarrow> Inr 1
      | Some raw \<Rightarrow> evalIntExpr (Some raw) scope ''for.step'') = Inr s"

text \<open>The values of the loop variable as the specification lists them: \<open>a\<close>, \<open>a + s\<close>,
  \<open>a + 2s\<close> and so on, while the value is at most \<open>b\<close> for a positive stride, at least \<open>b\<close>
  for a negative one.\<close>

function spec_for_values :: "int \<Rightarrow> int \<Rightarrow> int \<Rightarrow> int list" where
  "spec_for_values a b s =
     (if 0 < s \<and> a \<le> b then a # spec_for_values (a + s) b s
      else if s < 0 \<and> b \<le> a then a # spec_for_values (a + s) b s
      else [])"
  by pat_completeness auto
termination
  by (relation "measure (\<lambda>(a, b, s). if 0 < s then nat (b - a + 1) else nat (a - b + 1))") auto

declare spec_for_values.simps [simp del]

text \<open>The values of the loop variable, and the first sum past the bound, are integers of
  magnitude up to \<open>2^53\<close>: the sums \<^verbatim>\<open>i + stride\<close> of the source are exact.\<close>

text \<open>The outcome of a step against the outcome \<open>r\<close> of a list of iterations: the same, or
  the iterations return and the step repeats for ever in the state they leave.\<close>

definition ends_as :: "Outcome \<Rightarrow> Outcome \<Rightarrow> bool" where
  "ends_as result r \<longleftrightarrow> result = r \<or> (fst r = None \<and> result = (Some NeverReturns, snd r))"

definition loop_exact :: "int \<Rightarrow> int \<Rightarrow> int \<Rightarrow> bool" where
  "loop_exact a b s \<longleftrightarrow>
     (0 < s \<longrightarrow> - (2 ^ 53) \<le> a \<and> b + s \<le> 2 ^ 53) \<and>
     (s < 0 \<longrightarrow> a \<le> 2 ^ 53 \<and> - (2 ^ 53) \<le> b + s)"

text \<open>The iterations as the specification describes them: the body is executed once for
  each value, in order, one level deeper, in the scope of the step with the variable bound
  to the value. An exception ends the iterations. The cap on the output is no part of
  this definition.\<close>

fun spec_run_iterations ::
  "string list \<Rightarrow> Defs \<Rightarrow> json list \<Rightarrow> Scope \<Rightarrow> string \<Rightarrow> int list \<Rightarrow> Exec \<Rightarrow> nat \<Rightarrow> Outcome" where
  "spec_run_iterations catalog defs body scope varName [] st callDepth = (None, st)"
| "spec_run_iterations catalog defs body scope varName (i # rest) st callDepth =
     (case executeSteps catalog defs body (scope(varName \<mapsto> SNum i)) st (callDepth + 1) of
        (Some e, st1) \<Rightarrow> (Some e, st1)
      | (None, st1) \<Rightarrow> spec_run_iterations catalog defs body scope varName rest st1 callDepth)"

subsection \<open>Programs for the examples\<close>

text \<open>A block of stone on the \<open>x\<close> axis.\<close>

definition stone_at :: "int \<Rightarrow> Block" where
  "stone_at i = \<lparr>block_x = i, block_y = 0, block_z = 0, blockType = ''minecraft:stone''\<rparr>"

text \<open>\<^verbatim>\<open>{"op":"place","x":"i","y":0,"z":0}\<close>, and the program of the specification's example:
  \<^verbatim>\<open>{"steps":[{"op":"for","var":"i","from":0,"to":4,"steps":[...]}]}\<close>.\<close>

definition place_i :: json where
  "place_i = JObj [(''op'', JStr ''place''), (''x'', JStr ''i''), (''y'', JNum 0), (''z'', JNum 0)]"

definition row_program :: json where
  "row_program = JObj [(''steps'', JArr [JObj [(''op'', JStr ''for''), (''var'', JStr ''i''),
     (''from'', JNum 0), (''to'', JNum 4), (''steps'', JArr [place_i])]])]"

text \<open>\<^verbatim>\<open>{"op":"place","x":0,"y":0,"z":0}\<close> inside \<open>n\<close> nested \<^verbatim>\<open>for\<close> steps of one iteration
  each.\<close>

definition place_origin :: json where
  "place_origin = JObj [(''op'', JStr ''place''), (''x'', JNum 0), (''y'', JNum 0), (''z'', JNum 0)]"

fun nested_for :: "nat \<Rightarrow> json list \<Rightarrow> json list" where
  "nested_for 0 body = body"
| "nested_for (Suc n) body =
     [JObj [(''op'', JStr ''for''), (''var'', JStr ''i''), (''from'', JNum 0), (''to'', JNum 0),
        (''steps'', JArr (nested_for n body))]]"

definition nested_program :: "nat \<Rightarrow> json" where
  "nested_program n = JObj [(''steps'', JArr (nested_for n [place_origin]))]"

text \<open>A function that calls itself:
  \<^verbatim>\<open>{"defs":[{"name":"f","steps":[{"op":"call","name":"f"}]}],"steps":[{"op":"call","name":"f"}]}\<close>.\<close>

definition call_f :: json where
  "call_f = JObj [(''op'', JStr ''call''), (''name'', JStr ''f'')]"

definition recursive_f :: "(string \<times> json) list" where
  "recursive_f = [(''name'', JStr ''f''), (''steps'', JArr [call_f])]"

definition recursive_program :: json where
  "recursive_program = JObj [(''defs'', JArr [JObj recursive_f]), (''steps'', JArr [call_f])]"

text \<open>The JSON number \<^verbatim>\<open>1e309\<close>, which the host reads as an infinity, and a loop over numbers
  too large for the stride:
  \<^verbatim>\<open>{"op":"for","var":"i","from":9007199254740992,"to":9007199254740994,"steps":[...]}\<close>.\<close>

definition huge_number :: rat where
  "huge_number = 10 ^ 309"

definition large_for :: "json list \<Rightarrow> (string \<times> json) list" where
  "large_for body =
     [(''op'', JStr ''for''), (''var'', JStr ''i''), (''from'', JNum 9007199254740992),
      (''to'', JNum 9007199254740994), (''steps'', JArr body)]"

section \<open>Properties\<close>

subsection \<open>Numbers\<close>

lemma floor_rat_numeral_div: "\<lfloor>(numeral a :: rat) / numeral b\<rfloor> = numeral a div numeral b"
  using floor_divide_of_int_eq[of "numeral a" "numeral b", where ?'a = rat] by simp

lemma ceiling_rat_numeral_div: "\<lceil>(numeral a :: rat) / numeral b\<rceil> = - ((- numeral a) div numeral b)"
  unfolding ceiling_def using floor_divide_of_int_eq[of "- numeral a" "numeral b", where ?'a = rat] by simp

lemma scale_split:
  "(x::rat) / 2 powi (e - 52) = (if 52 \<le> e then x / 2 ^ nat (e - 52) else x * 2 ^ nat (52 - e))"
  "(y::rat) * 2 powi (e - 52) = (if 52 \<le> e then y * 2 ^ nat (e - 52) else y / 2 ^ nat (52 - e))"
  by (simp_all add: power_int_def field_simps)

lemma Number_of_compute:
  "Number_of q =
     (if q = 0 then Some 0
      else
        (let e = max (binade \<bar>q\<bar>) (- 1022);
             m = round_half_even (if 52 \<le> e then \<bar>q\<bar> / 2 ^ nat (e - 52) else \<bar>q\<bar> * 2 ^ nat (52 - e));
             v = (if 52 \<le> e then of_int m * 2 ^ nat (e - 52) else of_int m / 2 ^ nat (52 - e))
         in if 2 ^ 1024 \<le> v then None else Some (sgn q * v)))"
  by (simp only: Number_of_def Let_def scale_split)

lemmas number_simps = Number_int_def Number_of_compute binade_def round_half_even_def Math_trunc_def
  compute_bitlen Let_def floor_rat_numeral_div ceiling_rat_numeral_div

lemma round_half_even_int [simp]: "round_half_even (of_int k) = k"
  by (simp add: round_half_even_def)

lemma round_half_even_ge: "of_int k \<le> x \<Longrightarrow> k \<le> round_half_even x"
proof -
  assume "of_int k \<le> x"
  then have "k \<le> \<lfloor>x\<rfloor>" by (simp add: le_floor_iff)
  then show ?thesis by (simp add: round_half_even_def Let_def)
qed

lemma round_half_even_upper: "of_int (round_half_even x) \<le> x + 1 / 2"
proof (cases "x - of_int \<lfloor>x\<rfloor> < 1 / 2")
  case True
  then have "round_half_even x = \<lfloor>x\<rfloor>" by (simp add: round_half_even_def Let_def)
  moreover have "of_int \<lfloor>x\<rfloor> \<le> x" by simp
  ultimately show ?thesis by linarith
next
  case False
  have "round_half_even x \<le> \<lfloor>x\<rfloor> + 1" by (simp add: round_half_even_def Let_def)
  then have "(of_int (round_half_even x) :: rat) \<le> of_int (\<lfloor>x\<rfloor> + 1)" by (simp only: of_int_le_iff)
  then have "(of_int (round_half_even x) :: rat) \<le> of_int \<lfloor>x\<rfloor> + 1" by simp
  with False show ?thesis by linarith
qed

lemma round_half_even_less: "x < of_int k - 1 / 2 \<Longrightarrow> round_half_even x < k"
proof -
  assume "x < of_int k - 1 / 2"
  with round_half_even_upper[of x] have "(of_int (round_half_even x) :: rat) < of_int k" by simp
  then show ?thesis by simp
qed

lemma int_le_pow2: "(k::int) \<le> 2 ^ n \<Longrightarrow> (of_int k :: rat) \<le> 2 ^ n"
  by (metis of_int_le_iff of_int_numeral of_int_power)

lemma int_less_pow2: "(k::int) < 2 ^ n \<Longrightarrow> (of_int k :: rat) < 2 ^ n"
  by (metis of_int_less_iff of_int_numeral of_int_power)

lemma pow2_le_int: "2 ^ n \<le> (k::int) \<Longrightarrow> (2 ^ n :: rat) \<le> of_int k"
  by (metis of_int_le_iff of_int_numeral of_int_power)

lemma powi_nat: "0 \<le> k \<Longrightarrow> (2::rat) powi k = 2 ^ nat k"
  by (simp add: power_int_def)

lemma binade_bounds:
  assumes "0 < q"
  shows "2 powi binade q \<le> q" and "q < 2 powi (binade q + 1)"
proof -
  have "2 powi binade q \<le> q \<and> q < 2 powi (binade q + 1)"
  proof (cases "1 \<le> q")
    case True
    define n where "n = \<lfloor>q\<rfloor>"
    have n: "1 \<le> n" "of_int n \<le> q" "q < of_int n + 1"
      using True floor_correct[of q] by (simp_all add: n_def le_floor_iff)
    from bitlen_bounds[of n] n(1)
    have b: "2 ^ nat (bitlen n - 1) \<le> n" "n < 2 ^ nat (bitlen n)" by simp_all
    have pos: "1 \<le> bitlen n" using n(1) bitlen_eq_zero_iff[of n] bitlen_nonneg[of n] by linarith
    have e: "binade q = bitlen n - 1" using True by (simp add: binade_def n_def)
    have p1: "(2::rat) powi (bitlen n - 1) = 2 ^ nat (bitlen n - 1)"
      using pos by (simp add: powi_nat)
    have "(2 ^ nat (bitlen n - 1) :: rat) \<le> of_int n" using b(1) by (rule pow2_le_int)
    with n(2) have "(2 ^ nat (bitlen n - 1) :: rat) \<le> q" by linarith
    then have lower: "2 powi binade q \<le> q" using e p1 by simp
    have "n + 1 \<le> 2 ^ nat (bitlen n)" using b(2) by simp
    then have "(of_int (n + 1) :: rat) \<le> 2 ^ nat (bitlen n)" by (rule int_le_pow2)
    then have "(of_int n :: rat) + 1 \<le> 2 ^ nat (bitlen n)" by (simp only: of_int_add of_int_1)
    with n(3) have "q < 2 ^ nat (bitlen n)" by linarith
    moreover have "(2::rat) powi (bitlen n - 1 + 1) = 2 ^ nat (bitlen n)"
      using pos by (simp add: powi_nat)
    ultimately have "q < 2 powi (binade q + 1)" using e by simp
    with lower show ?thesis by simp
  next
    case False
    define m where "m = \<lceil>1 / q\<rceil>"
    have x: "1 < 1 / q" using False assms by simp
    have m: "1 / q \<le> of_int m" "of_int m - 1 < 1 / q" by (simp_all add: m_def) linarith
    have m2: "2 \<le> m" using x m(1) by (smt (verit) of_int_le_iff of_int_1 less_le_trans not_less of_int_less_iff)
    define k where "k = bitlen (m - 1)"
    from bitlen_bounds[of "m - 1"] m2
    have b: "2 ^ nat (k - 1) \<le> m - 1" "m - 1 < 2 ^ nat k" by (simp_all add: k_def)
    have pos: "1 \<le> k" using m2 bitlen_eq_zero_iff[of "m - 1"] bitlen_nonneg[of "m - 1"]
      unfolding k_def by linarith
    have e: "binade q = - k" using False by (simp add: binade_def m_def k_def)
    have "m \<le> 2 ^ nat k" using b(2) by simp
    then have "(of_int m :: rat) \<le> 2 ^ nat k" by (rule int_le_pow2)
    with m(1) have "1 / q \<le> 2 ^ nat k" by linarith
    then have "1 \<le> 2 ^ nat k * q" using assms by (simp add: field_simps)
    then have lower: "2 powi (- k) \<le> q" using pos by (simp add: power_int_def field_simps)
    have "(2 ^ nat (k - 1) :: rat) \<le> of_int (m - 1)" using b(1) by (rule pow2_le_int)
    then have "(2 ^ nat (k - 1) :: rat) \<le> of_int m - 1" by (simp only: of_int_diff of_int_1)
    with m(2) have "2 ^ nat (k - 1) < 1 / q" by linarith
    then have lt: "q < 1 / 2 ^ nat (k - 1)" using assms by (simp add: field_simps)
    have p: "(2::rat) powi (- k + 1) = 1 / 2 ^ nat (k - 1)"
    proof -
      have "- k + 1 = - (k - 1)" by simp
      then show ?thesis using pos by (simp add: power_int_def field_simps)
    qed
    have "q < 2 powi (- k + 1)" unfolding p by (rule lt)
    with lower e show ?thesis by simp
  qed
  then show "2 powi binade q \<le> q" and "q < 2 powi (binade q + 1)" by simp_all
qed

lemma pow2_53_small: "(2::rat) ^ 53 < 2 ^ 1024"
  by (rule power_strict_increasing) simp_all

lemma binade_int:
  assumes "1 \<le> a"
  shows "binade (of_int a) = bitlen a - 1" and "0 \<le> binade (of_int a)"
proof -
  show e: "binade (of_int a) = bitlen a - 1" using assms by (simp add: binade_def)
  have "1 \<le> bitlen a" using assms bitlen_eq_zero_iff[of a] bitlen_nonneg[of a] by linarith
  with e show "0 \<le> binade (of_int a)" by simp
qed

lemma binade_le:
  assumes "0 < q" and "q < 2 powi k"
  shows "binade q < k"
proof (rule ccontr)
  assume "\<not> binade q < k"
  then have "k \<le> binade q" by simp
  then have "(2::rat) powi k \<le> 2 powi binade q" by (intro power_int_increasing) simp_all
  with binade_bounds(1)[OF assms(1)] assms(2) show False by linarith
qed

lemma binade_ge:
  assumes "0 < q" and "2 powi k \<le> q"
  shows "k \<le> binade q"
proof (rule ccontr)
  assume "\<not> k \<le> binade q"
  then have "binade q + 1 \<le> k" by simp
  then have "(2::rat) powi (binade q + 1) \<le> 2 powi k" by (intro power_int_increasing) simp_all
  with binade_bounds(2)[OF assms(1)] assms(2) show False by linarith
qed

lemma powi_scale_down:
  assumes "e \<le> 52"
  shows "(2::rat) powi (e - 52) = 1 / 2 ^ nat (52 - e)"
proof -
  have "(2::rat) powi (e - 52) = 2 powi (- (52 - e))" by simp
  also have "\<dots> = inverse (2 powi (52 - e))" by (rule power_int_minus)
  also have "\<dots> = inverse (2 ^ nat (52 - e))" using assms by (simp add: powi_nat)
  finally show ?thesis by (simp add: field_simps)
qed

text \<open>The value of a positive rational whose scaled magnitude rounds to \<open>m\<close>.\<close>

lemma Number_of_pos:
  assumes "0 < q" and "- 1022 \<le> binade q"
    and "round_half_even (q / 2 powi (binade q - 52)) = m"
    and "of_int m * 2 powi (binade q - 52) < (2::rat) ^ 1024"
  shows "Number_of q = Some (of_int m * 2 powi (binade q - 52))"
proof -
  have "\<bar>q\<bar> = q" "sgn q = 1" "q \<noteq> 0" using assms(1) by simp_all
  moreover have "max (binade q) (- 1022) = binade q" using assms(2) by simp
  ultimately show ?thesis using assms(3,4)
    by (simp add: Number_of_def Let_def)
qed

lemma Number_of_nat_exact:
  assumes "1 \<le> a" and "a \<le> 2 ^ 53"
  shows "Number_of (of_int a) = Some (of_int a)"
proof -
  define e where "e = binade (of_int a)"
  have q: "(0::rat) < of_int a" using assms(1) by simp
  have e0: "0 \<le> e" using binade_int(2)[OF assms(1)] by (simp add: e_def)
  have "(of_int a :: rat) \<le> 2 ^ 53" using assms(2) by (rule int_le_pow2)
  then have "(of_int a :: rat) < 2 powi 54" by (simp add: power_int_def)
  from binade_le[OF q this] have e53: "e \<le> 53" by (simp add: e_def)
  have lower: "(2::rat) powi e \<le> of_int a" using binade_bounds(1)[OF q] by (simp add: e_def)
  have "\<exists>k. (of_int a :: rat) / 2 powi (e - 52) = of_int k"
  proof (cases "e \<le> 52")
    case True
    then have "(2::rat) powi (e - 52) = 1 / 2 ^ nat (52 - e)" by (rule powi_scale_down)
    then have "(of_int a :: rat) / 2 powi (e - 52) = of_int (a * 2 ^ nat (52 - e))" by simp
    then show ?thesis by blast
  next
    case False
    with e53 have e: "e = 53" by simp
    with lower have "(2::rat) ^ 53 \<le> of_int a" by (simp add: power_int_def)
    then have "(2::int) ^ 53 \<le> a" by (metis of_int_le_iff of_int_numeral of_int_power)
    with assms(2) have a: "a = 2 ^ 53" by simp
    have "(of_int a :: rat) / 2 powi (e - 52) = of_int (2 ^ 52)" unfolding e a by simp
    then show ?thesis by blast
  qed
  then obtain k where k: "(of_int a :: rat) / 2 powi (e - 52) = of_int k" by blast
  have u: "(0::rat) < 2 powi (e - 52)" by simp
  from k have v: "of_int k * 2 powi (e - 52) = (of_int a :: rat)"
    using u by (simp add: field_simps)
  have small: "(of_int a :: rat) < 2 ^ 1024"
    using \<open>(of_int a :: rat) \<le> 2 ^ 53\<close> pow2_53_small by linarith
  have "Number_of (of_int a) = Some (of_int k * 2 powi (binade (of_int a) - 52))"
  proof (rule Number_of_pos[OF q])
    show "- 1022 \<le> binade (rat_of_int a)" using e0 by (simp add: e_def)
    show "round_half_even (rat_of_int a / 2 powi (binade (rat_of_int a) - 52)) = k"
      using k by (simp add: e_def)
    show "rat_of_int k * 2 powi (binade (rat_of_int a) - 52) < 2 ^ 1024"
      using v small by (simp add: e_def)
  qed
  with v show ?thesis by (simp add: e_def)
qed

lemma Number_of_neg: "Number_of (- q) = map_option uminus (Number_of q)"
  by (simp add: Number_of_def Let_def)

lemma Number_of_int_exact:
  assumes "\<bar>n\<bar> \<le> 2 ^ 53"
  shows "Number_of (of_int n) = Some (of_int n)"
proof -
  consider "n = 0" | "1 \<le> n" | "1 \<le> - n" by linarith
  then show ?thesis
  proof cases
    case 1
    then show ?thesis by (simp add: Number_of_def)
  next
    case 2
    with assms show ?thesis by (intro Number_of_nat_exact) simp_all
  next
    case 3
    with assms have "Number_of (of_int (- n)) = Some (of_int (- n))"
      by (intro Number_of_nat_exact) simp_all
    then have "Number_of (- of_int n) = Some (- of_int n)" by simp
    then show ?thesis unfolding Number_of_neg by (cases "Number_of (of_int n)") simp_all
  qed
qed

lemma Math_trunc_int [simp]: "Math_trunc (of_int n) = n"
  by (simp add: Math_trunc_def)

lemma Number_int_exact: "\<bar>n\<bar> \<le> 2 ^ 53 \<Longrightarrow> Number_int n = Some n"
  by (simp add: Number_int_def Number_of_int_exact)

lemma quotient_pos:
  assumes a: "1 \<le> a" "a \<le> 2 ^ 53" and b: "1 \<le> b"
  shows "\<exists>v. Number_of (of_int a / of_int b) = Some v \<and> of_int (a div b) \<le> v \<and>
           v < of_int (a div b) + 1"
proof -
  define q :: rat where "q = of_int a / of_int b"
  define n where "n = a div b"
  define e where "e = binade q"
  define u :: rat where "u = 2 powi (max e (- 1022) - 52)"
  define m where "m = round_half_even (q / u)"
  have q0: "0 < q" using a(1) b by (simp add: q_def)
  have u0: "0 < u" by (simp add: u_def)
  have fl: "\<lfloor>q\<rfloor> = n" unfolding q_def n_def by (rule floor_divide_of_int_eq)
  have n1: "of_int n \<le> q" using fl of_int_floor_le[of q] by simp
  have n2: "q < of_int n + 1" using fl floor_correct[of q] by simp
  have n0: "0 \<le> n" using a(1) b by (simp add: n_def pos_imp_zdiv_nonneg_iff)
  have a53: "(of_int a :: rat) \<le> 2 ^ 53" using a(2) by (rule int_le_pow2)
  have qa: "q \<le> of_int a"
  proof -
    have "(of_int a :: rat) / of_int b \<le> of_int a / 1"
      using a(1) b by (intro divide_left_mono) simp_all
    then show ?thesis by (simp add: q_def)
  qed
  have bounds: "of_int n \<le> of_int m * u \<and> of_int m * u < of_int n + 1"
  proof (cases "q < 1")
    case True
    have "(of_int n :: rat) < 1" using n1 True by linarith
    then have "n < 1" by simp
    with n0 have "n = 0" by simp
    have "e < 0" unfolding e_def using True by (intro binade_le[OF q0]) simp
    then have E: "max e (- 1022) \<le> - 1" by simp
    define K :: int where "K = 2 ^ nat (52 - max e (- 1022))"
    have uK: "u = 1 / of_int K"
      unfolding u_def K_def using E by (simp add: powi_scale_down)
    have K0: "0 < K" by (simp add: K_def)
    have "(2::int) ^ 53 \<le> 2 ^ nat (52 - max e (- 1022))"
      using E by (intro power_increasing) simp_all
    then have K53: "2 ^ 53 \<le> K" by (simp add: K_def)
    then have K53': "(2 ^ 53 :: rat) \<le> of_int K" by (rule pow2_le_int)
    have m0: "0 \<le> m" unfolding m_def using q0 u0 by (intro round_half_even_ge) simp
    have "a < b"
    proof -
      have "of_int a < (of_int b :: rat)" using True b by (simp add: q_def field_simps)
      then show ?thesis by simp
    qed
    then have "a + 1 \<le> b" by simp
    then have "(of_int (a + 1) :: rat) \<le> of_int b" by (simp only: of_int_le_iff)
    then have ab: "(of_int a :: rat) + 1 \<le> of_int b" by simp
    have "q * (of_int a + 1) \<le> of_int a"
    proof -
      have "q * (of_int a + 1) \<le> q * of_int b" using ab q0 by (intro mult_left_mono) simp_all
      also have "\<dots> = of_int a" using b by (simp add: q_def)
      finally show ?thesis .
    qed
    then have "q * (2 ^ 53 + 1) \<le> 2 ^ 53"
    proof -
      assume h: "q * (of_int a + 1) \<le> of_int a"
      have "q * (2 ^ 53 + 1) = q * (of_int a + 1) + q * (2 ^ 53 - of_int a)" by (simp add: algebra_simps)
      also have "\<dots> \<le> of_int a + q * (2 ^ 53 - of_int a)" using h by simp
      also have "\<dots> \<le> of_int a + 1 * (2 ^ 53 - of_int a)"
        using True a53 by (intro add_left_mono mult_right_mono) simp_all
      finally show ?thesis by simp
    qed
    then have q1: "q \<le> 2 ^ 53 / (2 ^ 53 + 1)" by (simp add: field_simps)
    have "q / u < of_int K - 1 / 2"
    proof -
      have "q * (2 * of_int K) \<le> 2 ^ 53 / (2 ^ 53 + 1) * (2 * of_int K)"
        using q1 K0 by (intro mult_right_mono) simp_all
      also have "\<dots> < 2 * of_int K - 1"
      proof -
        have "(2 ^ 53 + 1 :: rat) < 2 * of_int K" using K53' by simp
        then show ?thesis by (simp add: field_simps)
      qed
      finally have "q * (2 * of_int K) < 2 * of_int K - 1" .
      then show ?thesis using K0 by (simp add: uK field_simps)
    qed
    then have "m < K" unfolding m_def by (rule round_half_even_less)
    then have "m \<le> K - 1" by simp
    then have "(of_int m :: rat) \<le> of_int (K - 1)" by (simp only: of_int_le_iff)
    then have "(of_int m :: rat) * u \<le> of_int (K - 1) * u" using u0 by (intro mult_right_mono) simp_all
    also have "\<dots> < 1" using K0 by (simp add: uK field_simps)
    finally have "of_int m * u < 1" .
    moreover have "0 \<le> of_int m * u" using m0 u0 by simp
    ultimately show ?thesis using \<open>n = 0\<close> by simp
  next
    case False
    then have q1: "1 \<le> q" by simp
    have e0: "0 \<le> e" unfolding e_def using q1 by (intro binade_ge[OF q0]) simp
    have "q < 2 powi 54" using qa a53 by (simp add: power_int_def)
    from binade_le[OF q0 this] have e53: "e \<le> 53" by (simp add: e_def)
    have E: "max e (- 1022) = e" using e0 by simp
    have lower: "2 powi e \<le> q" unfolding e_def by (rule binade_bounds(1)[OF q0])
    show ?thesis
    proof (cases "e \<le> 52")
      case False
      with e53 have e: "e = 53" by simp
      with lower have "2 ^ 53 \<le> q" by (simp add: power_int_def)
      with qa a53 have q: "q = 2 ^ 53" by linarith
      have u: "u = 2" by (simp add: u_def E e)
      have "q / u = of_int (2 ^ 52)" by (simp add: q u)
      then have "m = 2 ^ 52" by (simp only: m_def round_half_even_int)
      then have v: "of_int m * u = q" by (simp add: u q)
      from n1 n2 show ?thesis unfolding v by simp
    next
      case True
      define K :: int where "K = 2 ^ nat (52 - e)"
      have uK: "u = 1 / of_int K" unfolding u_def K_def E using True by (simp add: powi_scale_down)
      have K0: "0 < K" by (simp add: K_def)
      have "of_int (n * K) \<le> q / u" using n1 K0 by (simp add: uK mult_right_mono)
      then have "n * K \<le> m" unfolding m_def by (rule round_half_even_ge)
      then have "(of_int (n * K) :: rat) \<le> of_int m" by (simp only: of_int_le_iff)
      then have low: "of_int n \<le> of_int m * u" using K0 by (simp add: uK field_simps)
      have "m < (n + 1) * K"
      proof (cases "q = of_int n")
        case True
        then have "q / u = of_int (n * K)" by (simp add: uK)
        then have "m = n * K" by (simp only: m_def round_half_even_int)
        then show ?thesis using K0 by (simp add: algebra_simps)
      next
        case False
        with n1 have nq: "of_int n < q" by simp
        have "q \<noteq> 2 powi e"
        proof
          assume "q = 2 powi e"
          then have "q = of_int (2 ^ nat e)" using e0 by (simp add: powi_nat)
          then have "\<lfloor>q\<rfloor> = 2 ^ nat e" by simp
          with fl \<open>q = of_int (2 ^ nat e)\<close> False show False by simp
        qed
        with lower have strict: "2 powi e < q" by simp
        have pe: "(2::rat) powi e = 2 ^ nat e" using e0 by (rule powi_nat)
        have "(2::rat) ^ nat e * of_int K = 2 ^ 52"
        proof -
          have "nat e + nat (52 - e) = 52" using e0 True by simp
          then have "(2::rat) ^ nat e * 2 ^ nat (52 - e) = 2 ^ 52"
            by (simp add: power_add[symmetric])
          then show ?thesis by (simp add: K_def)
        qed
        then have eK: "(2::rat) ^ nat e = 2 ^ 52 / of_int K" using K0 by (simp add: field_simps)
        have "a < (n + 1) * b"
        proof -
          have "(of_int a :: rat) < (of_int n + 1) * of_int b"
            using n2 b by (simp add: q_def field_simps)
          then have "(of_int a :: rat) < of_int ((n + 1) * b)" by simp
          then show ?thesis by (simp only: of_int_less_iff)
        qed
        then have "1 \<le> (n + 1) * b - a" by simp
        then have "(of_int 1 :: rat) \<le> of_int ((n + 1) * b - a)" by (simp only: of_int_le_iff)
        then have "(1 :: rat) \<le> (of_int n + 1) * of_int b - of_int a" by simp
        then have gap: "1 / of_int b \<le> of_int n + 1 - q" using b by (simp add: q_def field_simps)
        have "(of_int b :: rat) * 2 powi e < of_int a"
          using strict b by (simp add: q_def field_simps)
        with a53 have "(of_int b :: rat) * 2 powi e < (2::rat) ^ 53" by linarith
        then have "(of_int b :: rat) * (2 ^ 52 / of_int K) < (2::rat) ^ 53" by (simp only: pe eK)
        then have "(of_int b :: rat) < 2 * of_int K" using K0 by (simp add: field_simps)
        then have "1 / (2 * of_int K) < 1 / (of_int b :: rat)"
          using b K0 by (simp add: field_simps)
        with gap have "1 / (2 * of_int K) < of_int n + 1 - q" by linarith
        then have "q * of_int K < (of_int n + 1) * of_int K - 1 / 2"
          using K0 by (simp add: field_simps)
        then have "q / u < of_int ((n + 1) * K) - 1 / 2" by (simp add: uK)
        then show ?thesis unfolding m_def by (rule round_half_even_less)
      qed
      then have "m \<le> (n + 1) * K - 1" by simp
      then have "(of_int m :: rat) \<le> of_int ((n + 1) * K - 1)" by (simp only: of_int_le_iff)
      then have "(of_int m :: rat) * u \<le> of_int ((n + 1) * K - 1) * u"
        using u0 by (intro mult_right_mono) simp_all
      also have "\<dots> < of_int n + 1" using K0 by (simp add: uK field_simps)
      finally have "of_int m * u < of_int n + 1" .
      with low show ?thesis by simp
    qed
  qed
  have "of_int n + 1 \<le> (2::rat) ^ 53 + 1"
  proof -
    have "of_int n \<le> (of_int a :: rat)" using n1 qa by linarith
    with a53 show ?thesis by linarith
  qed
  moreover have "(2::rat) ^ 53 + 1 \<le> 2 ^ 1024"
  proof -
    have "(2::rat) ^ 53 + 1 \<le> 2 ^ 53 + 2 ^ 53" by simp
    also have "\<dots> = 2 ^ 54" by simp
    also have "\<dots> \<le> 2 ^ 1024" by (rule power_increasing) simp_all
    finally show ?thesis .
  qed
  ultimately have small: "\<not> 2 ^ 1024 \<le> of_int m * u" using bounds by linarith
  have "Number_of q = Some (of_int m * u)"
  proof -
    have "\<bar>q\<bar> = q" "sgn q = 1" "q \<noteq> 0" using q0 by simp_all
    then show ?thesis using small
      by (simp add: Number_of_def Let_def e_def[symmetric] u_def[symmetric] m_def[symmetric])
  qed
  with bounds show ?thesis unfolding q_def n_def by blast
qed

lemma Math_trunc_between:
  assumes "0 \<le> n" and "of_int n \<le> v" and "v < of_int n + 1"
  shows "Math_trunc v = n" and "Math_trunc (- v) = - n"
proof -
  have v0: "0 \<le> v" using assms(1,2) by (meson of_int_0_le_iff order_trans)
  have fl: "\<lfloor>v\<rfloor> = n" using assms(2,3) by (simp add: floor_unique)
  show "Math_trunc v = n" using v0 fl by (simp add: Math_trunc_def)
  show "Math_trunc (- v) = - n"
  proof (cases "v = 0")
    case True
    with fl show ?thesis by (simp add: Math_trunc_def)
  next
    case False
    with v0 have "\<not> 0 \<le> - v" by simp
    then have "Math_trunc (- v) = \<lceil>- v\<rceil>" by (simp add: Math_trunc_def)
    also have "\<dots> = - \<lfloor>v\<rfloor>" by (simp add: ceiling_def)
    finally show ?thesis using fl by simp
  qed
qed

lemma quotient_trunc:
  assumes "\<bar>a\<bar> \<le> 2 ^ 53" and "b \<noteq> 0"
  shows "\<exists>v. Number_of (of_int a / of_int b) = Some v \<and>
           Math_trunc v = sgn a * sgn b * (\<bar>a\<bar> div \<bar>b\<bar>)"
proof (cases "a = 0")
  case True
  then show ?thesis by (simp add: Number_of_def Math_trunc_def)
next
  case False
  then have a: "1 \<le> \<bar>a\<bar>" by simp
  have b: "1 \<le> \<bar>b\<bar>" using assms(2) by simp
  from quotient_pos[OF a assms(1) b] obtain v where
    v: "Number_of (of_int \<bar>a\<bar> / of_int \<bar>b\<bar>) = Some v" "of_int (\<bar>a\<bar> div \<bar>b\<bar>) \<le> v"
      "v < of_int (\<bar>a\<bar> div \<bar>b\<bar>) + 1"
    by blast
  have n0: "0 \<le> \<bar>a\<bar> div \<bar>b\<bar>" using b by (simp add: pos_imp_zdiv_nonneg_iff)
  note t = Math_trunc_between[OF n0 v(2,3)]
  show ?thesis
  proof (cases "0 < sgn a * sgn b")
    case True
    then have s: "sgn a * sgn b = 1" using False assms(2) by (auto simp: sgn_if split: if_splits)
    have "(of_int a :: rat) / of_int b = of_int \<bar>a\<bar> / of_int \<bar>b\<bar>"
      using s by (auto simp: sgn_if abs_if split: if_splits)
    with v(1) t(1) s show ?thesis by simp
  next
    case neg: False
    then have s: "sgn a * sgn b = - 1" using False assms(2) by (auto simp: sgn_if split: if_splits)
    have "(of_int a :: rat) / of_int b = - (of_int \<bar>a\<bar> / of_int \<bar>b\<bar>)"
      using s by (auto simp: sgn_if abs_if split: if_splits)
    then have "Number_of (of_int a / of_int b) = Some (- v)"
      using v(1) by (simp add: Number_of_neg)
    with t(2) s show ?thesis by simp
  qed
qed

subsection \<open>Evaluating concrete inputs\<close>

lemmas char_class_defs = is_space_def is_digit_def is_ident_start_def is_ident_char_def

lemmas number_defs = Number_parseInt_def integer_of_text_def parse_digits_def digit_value_def

lemmas parse_simps = parseExpression.simps parseExpressionLoop.simps parseTerm.simps
  parseTermLoop.simps parseFactor.simps

lemma trunc_quotient:
  assumes "\<bar>l\<bar> \<le> 2 ^ 53" and "r \<noteq> 0"
  shows "map_option Math_trunc (Number_of (of_int l / of_int r)) =
    Some (sgn l * sgn r * (\<bar>l\<bar> div \<bar>r\<bar>))"
  using quotient_trunc[OF assms] by auto

lemma finite_number_simps [simp]:
  "finite_number (Some v) = Inr v" "finite_number None = Inl NotFinite"
  by (simp_all add: finite_number_def)

text \<open>The operations on integers whose result has a magnitude up to \<open>2^53\<close> are exact.\<close>

lemma applyIntOp_exact:
  "\<bar>l + r\<bar> \<le> 2 ^ 53 \<Longrightarrow> applyIntOp l (CHR ''+'') r field = Inr (l + r)"
  "\<bar>l - r\<bar> \<le> 2 ^ 53 \<Longrightarrow> applyIntOp l (CHR ''-'') r field = Inr (l - r)"
  "\<bar>l * r\<bar> \<le> 2 ^ 53 \<Longrightarrow> applyIntOp l (CHR ''*'') r field = Inr (l * r)"
  "\<bar>l\<bar> \<le> 2 ^ 53 \<Longrightarrow> applyIntOp l (CHR ''/'') r field =
     (if r = 0 then Inl (DivisionByZero field) else Inr (sgn l * sgn r * (\<bar>l\<bar> div \<bar>r\<bar>)))"
  by (simp_all add: applyIntOp_def Number_int_exact trunc_quotient)

lemma Number_of_small:
  "\<bar>numeral k :: int\<bar> \<le> 2 ^ 53 \<Longrightarrow> Number_of (numeral k) = Some (numeral k)"
  "\<bar>numeral k :: int\<bar> \<le> 2 ^ 53 \<Longrightarrow> Number_of (- numeral k) = Some (- numeral k)"
  "Number_of 0 = Some 0" "Number_of 1 = Some 1" "Number_of (- 1) = Some (- 1)"
  using Number_of_int_exact[of "numeral k"] Number_of_int_exact[of "- numeral k"]
    Number_of_int_exact[of 0] Number_of_int_exact[of 1] Number_of_int_exact[of "- 1"]
  by simp_all

lemma Math_trunc_small [simp]:
  "Math_trunc (numeral k) = numeral k" "Math_trunc (- numeral k) = - numeral k"
  "Math_trunc 0 = 0" "Math_trunc 1 = 1" "Math_trunc (- 1) = - 1"
  using Math_trunc_int[of "numeral k"] Math_trunc_int[of "- numeral k"]
    Math_trunc_int[of 0] Math_trunc_int[of 1] Math_trunc_int[of "- 1"]
  by simp_all

lemmas small_numbers = Number_of_small Number_int_exact applyIntOp_exact

lemmas eval_expr_simps = evaluateIntegerExpression_def tokenizeExpression_def char_class_defs
  number_defs parse_simps small_numbers

lemmas exec_simps = executeSteps.simps executeStepsLoop.simps executeForStep.simps
  forLoopUp.simps forLoopDown.simps executeCallStep.simps
lemmas limit_defs = MAX_BLOCKS_def MAX_EXECUTED_STEPS_def MAX_CALL_DEPTH_def MAX_CALLS_def

subsection \<open>The evaluator follows the grammar\<close>

lemma applyIntOp_tree:
  "applyIntOp x c y field = Inr v \<Longrightarrow> tree_value scope a = Some x \<Longrightarrow>
   tree_value scope b = Some y \<Longrightarrow> tree_value scope (Binary a c b) = Some v"
  by (auto simp: applyIntOp_def finite_number_def split: if_splits option.splits)

lemma parse_sound:
  "\<forall>v r. parseExpression scope field ts = Inr (v, r) \<longrightarrow>
     (\<exists>e. expr_g ts e r \<and> tree_value scope e = Some v)"
  "\<forall>v r e0. parseExpressionLoop scope field v0 ts = Inr (v, r) \<longrightarrow>
     tree_value scope e0 = Some v0 \<longrightarrow>
     (\<exists>e. expr_tail e0 ts e r \<and> tree_value scope e = Some v)"
  "\<forall>v r. parseTerm scope field ts = Inr (v, r) \<longrightarrow>
     (\<exists>e. term_g ts e r \<and> tree_value scope e = Some v)"
  "\<forall>v r e0. parseTermLoop scope field v0 ts = Inr (v, r) \<longrightarrow>
     tree_value scope e0 = Some v0 \<longrightarrow>
     (\<exists>e. term_tail e0 ts e r \<and> tree_value scope e = Some v)"
  "\<forall>v r. parseFactor scope field ts = Inr (v, r) \<longrightarrow>
     (\<exists>e. factor_g ts e r \<and> tree_value scope e = Some v)"
proof (induct scope field ts and scope field v0 ts and scope field ts and scope field v0 ts
    and scope field ts
    rule: parseExpression_parseExpressionLoop_parseTerm_parseTermLoop_parseFactor.induct)
  case (1 scope field ts)
  show ?case
  proof (intro allI impI)
    fix v r assume a: "parseExpression scope field ts = Inr (v, r)"
    then obtain v1 r1 where t: "parseTerm scope field ts = Inr (v1, r1)"
      and l: "parseExpressionLoop scope field v1 r1 = Inr (v, r)"
      by (subst (asm) parseExpression.simps) (auto split: sum.splits)
    from 1(1) t obtain e1 where e1: "term_g ts e1 r1" "tree_value scope e1 = Some v1"
      by blast
    from 1(2)[OF t refl] l e1(2) obtain e where "expr_tail e1 r1 e r" "tree_value scope e = Some v"
      by blast
    with e1 show "\<exists>e. expr_g ts e r \<and> tree_value scope e = Some v"
      by (blast intro: g_expr)
  qed
next
  case (2 scope field v0 ts)
  show ?case
  proof (intro allI impI)
    fix v r e0
    assume a: "parseExpressionLoop scope field v0 ts = Inr (v, r)"
      and e0: "tree_value scope e0 = Some v0"
    show "\<exists>e. expr_tail e0 ts e r \<and> tree_value scope e = Some v"
    proof (cases "\<exists>c rest. ts = TOp c # rest \<and> (c = CHR ''+'' \<or> c = CHR ''-'')")
      case False
      with a have "v = v0" "r = ts"
        by (subst (asm) parseExpressionLoop.simps;
            auto split: list.splits ExprToken.splits if_splits)+
      with e0 show ?thesis by (blast intro: g_expr_done)
    next
      case True
      then obtain c rest where ts: "ts = TOp c # rest" and c: "c = CHR ''+'' \<or> c = CHR ''-''"
        by blast
      from a ts c obtain rhs r1 v1 where t: "parseTerm scope field rest = Inr (rhs, r1)"
        and ap: "applyIntOp v0 c rhs field = Inr v1"
        and l: "parseExpressionLoop scope field v1 r1 = Inr (v, r)"
        by (subst (asm) parseExpressionLoop.simps) (auto split: sum.splits)
      have nc: "\<not> (c \<noteq> CHR ''+'' \<and> c \<noteq> CHR ''-'')" using c by simp
      from 2(1)[OF ts refl nc] t obtain e1 where e1: "term_g rest e1 r1"
        "tree_value scope e1 = Some rhs"
        by blast
      have tv: "tree_value scope (Binary e0 c e1) = Some v1"
        using applyIntOp_tree[OF ap e0 e1(2)] .
      from 2(2)[OF ts refl nc t refl ap] l tv obtain e where
        "expr_tail (Binary e0 c e1) r1 e r" "tree_value scope e = Some v"
        by blast
      with e1 c ts show ?thesis by (blast intro: g_expr_more)
    qed
  qed
next
  case (3 scope field ts)
  show ?case
  proof (intro allI impI)
    fix v r assume a: "parseTerm scope field ts = Inr (v, r)"
    then obtain v1 r1 where t: "parseFactor scope field ts = Inr (v1, r1)"
      and l: "parseTermLoop scope field v1 r1 = Inr (v, r)"
      by (subst (asm) parseTerm.simps) (auto split: sum.splits)
    from 3(1) t obtain e1 where e1: "factor_g ts e1 r1" "tree_value scope e1 = Some v1"
      by blast
    from 3(2)[OF t refl] l e1(2) obtain e where "term_tail e1 r1 e r" "tree_value scope e = Some v"
      by blast
    with e1 show "\<exists>e. term_g ts e r \<and> tree_value scope e = Some v"
      by (blast intro: g_term)
  qed
next
  case (4 scope field v0 ts)
  show ?case
  proof (intro allI impI)
    fix v r e0
    assume a: "parseTermLoop scope field v0 ts = Inr (v, r)"
      and e0: "tree_value scope e0 = Some v0"
    show "\<exists>e. term_tail e0 ts e r \<and> tree_value scope e = Some v"
    proof (cases "\<exists>c rest. ts = TOp c # rest \<and> (c = CHR ''*'' \<or> c = CHR ''/'')")
      case False
      with a have "v = v0" "r = ts"
        by (subst (asm) parseTermLoop.simps;
            auto split: list.splits ExprToken.splits if_splits)+
      with e0 show ?thesis by (blast intro: g_term_done)
    next
      case True
      then obtain c rest where ts: "ts = TOp c # rest" and c: "c = CHR ''*'' \<or> c = CHR ''/''"
        by blast
      from a ts c obtain rhs r1 v1 where t: "parseFactor scope field rest = Inr (rhs, r1)"
        and ap: "applyIntOp v0 c rhs field = Inr v1"
        and l: "parseTermLoop scope field v1 r1 = Inr (v, r)"
        by (subst (asm) parseTermLoop.simps) (auto split: sum.splits)
      have nc: "\<not> (c \<noteq> CHR ''*'' \<and> c \<noteq> CHR ''/'')" using c by simp
      from 4(1)[OF ts refl nc] t obtain e1 where e1: "factor_g rest e1 r1"
        "tree_value scope e1 = Some rhs"
        by blast
      have tv: "tree_value scope (Binary e0 c e1) = Some v1"
        using applyIntOp_tree[OF ap e0 e1(2)] .
      from 4(2)[OF ts refl nc t refl ap] l tv obtain e where
        "term_tail (Binary e0 c e1) r1 e r" "tree_value scope e = Some v"
        by blast
      with e1 c ts show ?thesis by (blast intro: g_term_more)
    qed
  qed
next
  case (5 scope field ts)
  show ?case
  proof (intro allI impI)
    fix v r assume a: "parseFactor scope field ts = Inr (v, r)"
    show "\<exists>e. factor_g ts e r \<and> tree_value scope e = Some v"
    proof (cases ts)
      case Nil
      with a show ?thesis by (subst (asm) parseFactor.simps) simp
    next
      case (Cons t rest)
      show ?thesis
      proof (cases t)
        case (TNumber n)
        with a Cons have "n = Some v" "r = rest"
          by (subst (asm) parseFactor.simps; auto simp: finite_number_def split: option.splits)+
        with Cons TNumber show ?thesis by (auto intro: g_number)
      next
        case (TIdent x)
        with a Cons have "scope_integer scope x = Some v \<and> r = rest"
          by (subst (asm) parseFactor.simps)
            (auto simp: scope_integer_def finite_number_def
              split: option.splits ScopeValue.splits if_splits)
        with Cons TIdent show ?thesis by (auto intro: g_identifier)
      next
        case (TOp c)
        with a Cons have c: "c = CHR ''+'' \<or> c = CHR ''-''"
          by (subst (asm) parseFactor.simps) (auto split: if_splits)
        with a Cons TOp obtain rhs where f: "parseFactor scope field rest = Inr (rhs, r)"
          and v: "v = (if c = CHR ''-'' then - rhs else rhs)"
          by (subst (asm) parseFactor.simps) (auto split: sum.splits if_splits)
        have ts: "ts = TOp c # rest" using Cons TOp by simp
        from 5(1)[OF ts refl c] f obtain e where "factor_g rest e r"
          "tree_value scope e = Some rhs"
          by blast
        with c v ts show ?thesis by (auto intro!: exI[of _ "Unary c e"] g_signed)
      next
        case TLparen
        with a Cons obtain inner r1 where p: "parseExpression scope field rest = Inr (inner, r1)"
          and r1: "r1 = TRparen # r" and v: "v = inner"
          by (subst (asm) parseFactor.simps)
            (auto split: sum.splits list.splits ExprToken.splits)
        have ts: "ts = TLparen # rest" using Cons TLparen by simp
        from 5(2)[OF ts refl] p r1 obtain e where "expr_g rest e (TRparen # r)"
          "tree_value scope e = Some inner"
          by blast
        with v ts show ?thesis by (auto intro: g_parens)
      next
        case TRparen
        with a Cons show ?thesis by (subst (asm) parseFactor.simps) simp
      qed
    qed
  qed
qed

lemma evaluate_sound:
  assumes "evaluateIntegerExpression expr scope field = Inr n"
  shows "\<exists>tokens e. tokenizeExpression expr = Inr tokens \<and> expr_g tokens e [] \<and>
           tree_value scope e = Some n"
proof -
  from assms obtain tokens where tk: "tokenizeExpression expr = Inr tokens"
    and p: "parseExpression scope field tokens = Inr (n, [])"
    by (auto simp: evaluateIntegerExpression_def split: sum.splits if_splits)
  from parse_sound(1)[of scope field tokens] p obtain e where
    "expr_g tokens e []" "tree_value scope e = Some n"
    by blast
  with tk show ?thesis by blast
qed

lemma parseTermLoop_stop: "\<not> starts_mul ts \<Longrightarrow> parseTermLoop scope field v ts = Inr (v, ts)"
  by (subst parseTermLoop.simps) (auto simp: starts_mul_def split: list.splits ExprToken.splits)

lemma parseExpressionLoop_stop: "\<not> starts_add ts \<Longrightarrow> parseExpressionLoop scope field v ts = Inr (v, ts)"
  by (subst parseExpressionLoop.simps) (auto simp: starts_add_def split: list.splits ExprToken.splits)

lemma tree_value_Binary:
  assumes "tree_value scope (Binary a c b) = Some v"
  shows "\<exists>x y. tree_value scope a = Some x \<and> tree_value scope b = Some y \<and>
           applyIntOp x c y field = Inr v"
proof -
  from assms obtain x y where x: "tree_value scope a = Some x" and y: "tree_value scope b = Some y"
    by (auto split: option.splits)
  have "applyIntOp x c y field = Inr v"
    using assms x y by (cases "c = CHR ''+''"; cases "c = CHR ''-''"; cases "c = CHR ''*''";
        cases "c = CHR ''/''"; cases "y = 0"; auto simp: applyIntOp_def)
  with x y show ?thesis by blast
qed

lemma expr_tail_start: "expr_tail e0 ts e r \<Longrightarrow> \<not> starts_add r \<Longrightarrow> \<not> starts_mul r \<Longrightarrow> \<not> starts_mul ts"
  by (erule expr_tail.cases) (auto simp: starts_mul_def)

lemma parse_complete:
  "expr_g ts e r \<Longrightarrow> (\<forall>v. tree_value scope e = Some v \<longrightarrow> \<not> starts_add r \<longrightarrow> \<not> starts_mul r \<longrightarrow>
      parseExpression scope field ts = Inr (v, r))"
  "expr_tail e0 ts e r \<Longrightarrow> (\<forall>v. tree_value scope e = Some v \<longrightarrow> \<not> starts_add r \<longrightarrow> \<not> starts_mul r \<longrightarrow>
      (\<exists>v0. tree_value scope e0 = Some v0 \<and> parseExpressionLoop scope field v0 ts = Inr (v, r)))"
  "term_g ts e r \<Longrightarrow> (\<forall>v. tree_value scope e = Some v \<longrightarrow> \<not> starts_mul r \<longrightarrow>
      parseTerm scope field ts = Inr (v, r))"
  "term_tail e0 ts e r \<Longrightarrow> (\<forall>v. tree_value scope e = Some v \<longrightarrow> \<not> starts_mul r \<longrightarrow>
      (\<exists>v0. tree_value scope e0 = Some v0 \<and> parseTermLoop scope field v0 ts = Inr (v, r)))"
  "factor_g ts e r \<Longrightarrow> (\<forall>v. tree_value scope e = Some v \<longrightarrow>
      parseFactor scope field ts = Inr (v, r))"
proof (induct rule: expr_g_expr_tail_term_g_term_tail_factor_g.inducts)
  case (g_expr ts e0 r0 e r)
  show ?case
  proof (intro allI impI)
    fix v assume v: "tree_value scope e = Some v" and r: "\<not> starts_add r" "\<not> starts_mul r"
    from g_expr(4) v r obtain v0 where v0: "tree_value scope e0 = Some v0"
      and l: "parseExpressionLoop scope field v0 r0 = Inr (v, r)" by blast
    have "\<not> starts_mul r0" using expr_tail_start[OF g_expr(3) r] .
    with g_expr(2) v0 have "parseTerm scope field ts = Inr (v0, r0)" by blast
    with l show "parseExpression scope field ts = Inr (v, r)"
      by (subst parseExpression.simps) simp
  qed
next
  case (g_expr_done e r)
  then show ?case by (auto simp: parseExpressionLoop_stop)
next
  case (g_expr_more c ts e1 r1 e0 e r)
  show ?case
  proof (intro allI impI)
    fix v assume v: "tree_value scope e = Some v" and r: "\<not> starts_add r" "\<not> starts_mul r"
    from g_expr_more(5) v r obtain v' where v': "tree_value scope (Binary e0 c e1) = Some v'"
      and l: "parseExpressionLoop scope field v' r1 = Inr (v, r)" by blast
    from tree_value_Binary[OF v', of field] obtain x y where x: "tree_value scope e0 = Some x"
      and y: "tree_value scope e1 = Some y" and ap: "applyIntOp x c y field = Inr v'" by blast
    have "\<not> starts_mul r1" using expr_tail_start[OF g_expr_more(4) r] .
    with g_expr_more(3) y have t: "parseTerm scope field ts = Inr (y, r1)" by blast
    have "parseExpressionLoop scope field x (TOp c # ts) = Inr (v, r)"
      using g_expr_more(1) t ap l by (subst parseExpressionLoop.simps) auto
    with x show "\<exists>v0. tree_value scope e0 = Some v0 \<and>
        parseExpressionLoop scope field v0 (TOp c # ts) = Inr (v, r)" by blast
  qed
next
  case (g_term ts e0 r0 e r)
  show ?case
  proof (intro allI impI)
    fix v assume v: "tree_value scope e = Some v" and r: "\<not> starts_mul r"
    from g_term(4) v r obtain v0 where v0: "tree_value scope e0 = Some v0"
      and l: "parseTermLoop scope field v0 r0 = Inr (v, r)" by blast
    from g_term(2) v0 have "parseFactor scope field ts = Inr (v0, r0)" by blast
    with l show "parseTerm scope field ts = Inr (v, r)"
      by (subst parseTerm.simps) simp
  qed
next
  case (g_term_done e r)
  then show ?case by (auto simp: parseTermLoop_stop)
next
  case (g_term_more c ts e1 r1 e0 e r)
  show ?case
  proof (intro allI impI)
    fix v assume v: "tree_value scope e = Some v" and r: "\<not> starts_mul r"
    from g_term_more(5) v r obtain v' where v': "tree_value scope (Binary e0 c e1) = Some v'"
      and l: "parseTermLoop scope field v' r1 = Inr (v, r)" by blast
    from tree_value_Binary[OF v', of field] obtain x y where x: "tree_value scope e0 = Some x"
      and y: "tree_value scope e1 = Some y" and ap: "applyIntOp x c y field = Inr v'" by blast
    from g_term_more(3) y have t: "parseFactor scope field ts = Inr (y, r1)" by blast
    have "parseTermLoop scope field x (TOp c # ts) = Inr (v, r)"
      using g_term_more(1) t ap l by (subst parseTermLoop.simps) auto
    with x show "\<exists>v0. tree_value scope e0 = Some v0 \<and>
        parseTermLoop scope field v0 (TOp c # ts) = Inr (v, r)" by blast
  qed
next
  case (g_signed c ts e r)
  show ?case
  proof (intro allI impI)
    fix v assume v: "tree_value scope (Unary c e) = Some v"
    then obtain w where w: "tree_value scope e = Some w" and vw: "v = (if c = CHR ''-'' then - w else w)"
      by (auto split: option.splits)
    from g_signed(3) w have "parseFactor scope field ts = Inr (w, r)" by blast
    with g_signed(1) vw show "parseFactor scope field (TOp c # ts) = Inr (v, r)"
      by (subst parseFactor.simps) auto
  qed
next
  case (g_number n r)
  then show ?case by (subst parseFactor.simps) simp
next
  case (g_identifier x r)
  then show ?case
    by (subst parseFactor.simps)
      (auto simp: scope_integer_def split: option.splits ScopeValue.splits if_splits)
next
  case (g_parens ts e r)
  show ?case
  proof (intro allI impI)
    fix v assume v: "tree_value scope e = Some v"
    have "\<not> starts_add (TRparen # r)" "\<not> starts_mul (TRparen # r)"
      by (simp_all add: starts_add_def starts_mul_def)
    with g_parens(2) v have "parseExpression scope field ts = Inr (v, TRparen # r)" by blast
    then show "parseFactor scope field (TLparen # ts) = Inr (v, r)"
      by (subst parseFactor.simps) simp
  qed
qed

lemma evaluate_iff:
  "evaluateIntegerExpression expr scope field = Inr n \<longleftrightarrow>
     (\<exists>tokens e. tokenizeExpression expr = Inr tokens \<and> expr_g tokens e [] \<and> tree_value scope e = Some n)"
proof
  assume "evaluateIntegerExpression expr scope field = Inr n"
  then show "\<exists>tokens e. tokenizeExpression expr = Inr tokens \<and> expr_g tokens e [] \<and> tree_value scope e = Some n"
    by (rule evaluate_sound)
next
  assume "\<exists>tokens e. tokenizeExpression expr = Inr tokens \<and> expr_g tokens e [] \<and> tree_value scope e = Some n"
  then obtain tokens e where tk: "tokenizeExpression expr = Inr tokens" and g: "expr_g tokens e []"
    and v: "tree_value scope e = Some n" by blast
  have "parseExpression scope field tokens = Inr (n, [])"
    using parse_complete(1)[of tokens e "[]" scope field] g v
    by (simp add: starts_add_def starts_mul_def)
  with tk show "evaluateIntegerExpression expr scope field = Inr n"
    by (simp add: evaluateIntegerExpression_def)
qed

subsection \<open>Safe integers\<close>

lemma safe_tree_value: "safe_tree scope e \<Longrightarrow> safe_value scope e"
  by (induct e) (auto simp: safe_value_def safe_integer_def split: option.splits)

lemma scope_integer_exact:
  "safe_value scope (Identifier x) \<Longrightarrow> scope_integer scope x = exact_integer scope x"
  by (auto simp: safe_value_def safe_integer_def scope_integer_def exact_integer_def
      Number_parseInt_def Number_int_exact split: option.splits ScopeValue.splits)

lemma safe_tree_exact: "safe_tree scope e \<Longrightarrow> tree_value scope e = exact_value scope e"
proof (induct e)
  case (Number n)
  then show ?case by simp
next
  case (Identifier x)
  then show ?case by (simp add: scope_integer_exact)
next
  case (Unary c e)
  then show ?case by simp
next
  case (Binary a c b)
  then have a: "tree_value scope a = exact_value scope a"
    and b: "tree_value scope b = exact_value scope b"
    and s: "safe_value scope (Binary a c b)" and sa: "safe_value scope a"
    by (simp_all add: safe_tree_value)
  show ?case
  proof (cases "exact_value scope a")
    case None
    with a show ?thesis by simp
  next
    case x: (Some x)
    show ?thesis
    proof (cases "exact_value scope b")
      case None
      with a b x show ?thesis by simp
    next
      case y: (Some y)
      from sa x have lx: "\<bar>x\<bar> \<le> 2 ^ 53" by (simp add: safe_value_def safe_integer_def)
      have plus: "c = CHR ''+'' \<Longrightarrow> Number_int (x + y) = Some (x + y)"
        using s x y by (intro Number_int_exact) (simp add: safe_value_def safe_integer_def)
      have minus: "c \<noteq> CHR ''+'' \<Longrightarrow> c = CHR ''-'' \<Longrightarrow> Number_int (x - y) = Some (x - y)"
        using s x y by (intro Number_int_exact) (simp add: safe_value_def safe_integer_def)
      have times: "c \<noteq> CHR ''+'' \<Longrightarrow> c \<noteq> CHR ''-'' \<Longrightarrow> c = CHR ''*'' \<Longrightarrow>
          Number_int (x * y) = Some (x * y)"
        using s x y by (intro Number_int_exact) (simp add: safe_value_def safe_integer_def)
      show ?thesis
        using a b x y plus minus times trunc_quotient[OF lx, of y] by simp
    qed
  qed
qed

subsection \<open>The examples of the specification, and two large numbers\<close>

lemma example_sum_halved:
  "evaluateIntegerExpression ''(x+z)/2'' [''x'' \<mapsto> SNum 5, ''z'' \<mapsto> SNum 1] field = Inr 3"
  by (simp add: eval_expr_simps)

lemma example_minus_one_half: "evaluateIntegerExpression ''-1/2'' scope field = Inr 0"
  by (simp add: eval_expr_simps)

lemma Number_int_2_53_1: "Number_int 9007199254740993 = Some 9007199254740992"
  by (simp add: number_simps)

lemma Number_int_large: "Number_int 13510798882111490 = Some 13510798882111490"
  by (simp add: number_simps)

lemma Number_of_large_third:
  "map_option Math_trunc (Number_of (13510798882111490 / 3)) = Some 4503599627370497"
  by (simp add: number_simps)

lemma large_sum:
  "evaluateIntegerExpression ''9007199254740992+1'' Map.empty field = Inr 9007199254740992"
  by (simp add: evaluateIntegerExpression_def tokenizeExpression_def char_class_defs
      number_defs parse_simps Number_int_exact applyIntOp_def Number_int_2_53_1)

lemma large_quotient:
  "evaluateIntegerExpression ''13510798882111490/3'' Map.empty field = Inr 4503599627370497"
  by (simp add: evaluateIntegerExpression_def tokenizeExpression_def char_class_defs
      number_defs parse_simps Number_int_exact applyIntOp_def Number_int_large
      Number_of_large_third)

lemma large_tokens:
  "tokenizeExpression ''9007199254740992+1'' =
     Inr [TNumber (Some 9007199254740992), TOp CHR ''+'', TNumber (Some 1)]"
  "tokenizeExpression ''13510798882111490/3'' =
     Inr [TNumber (Some 13510798882111490), TOp CHR ''/'', TNumber (Some 3)]"
  by (simp_all add: tokenizeExpression_def char_class_defs number_defs Number_int_exact
      Number_int_large)

subsection \<open>Claim C2\<close>

text \<open>
  C2 as the specification states it fails on large numbers. The quotient of
  13510798882111490 by 3 is 4503599627370496 with the remainder 2, and the evaluator
  gives 4503599627370497: the host rounds the quotient to the nearest double before
  \<^verbatim>\<open>Math.trunc\<close> sees it. The sum of 9007199254740992 and 1 is 9007199254740993, and the
  evaluator gives 9007199254740992.
\<close>

theorem C2_counterexample:
  "evaluateIntegerExpression ''13510798882111490/3'' Map.empty ''place.x'' = Inr 4503599627370497 \<and>
   tokenizeExpression ''13510798882111490/3'' =
     Inr [TNumber (Some 13510798882111490), TOp CHR ''/'', TNumber (Some 3)] \<and>
   exact_value Map.empty (Binary (Number (Some 13510798882111490)) CHR ''/'' (Number (Some 3))) =
     Some 4503599627370496 \<and>
   evaluateIntegerExpression ''9007199254740992+1'' Map.empty ''place.x'' = Inr 9007199254740992 \<and>
   tokenizeExpression ''9007199254740992+1'' =
     Inr [TNumber (Some 9007199254740992), TOp CHR ''+'', TNumber (Some 1)] \<and>
   exact_value Map.empty (Binary (Number (Some 9007199254740992)) CHR ''+'' (Number (Some 1))) =
     Some 9007199254740993"
  by (simp add: large_quotient large_sum large_tokens)

text \<open>
  C2, amended. An expression the evaluator accepts is an expression of the grammar (sums
  over products over signed factors, with parentheses), read to the last token, and the
  result is the value of its syntax tree in the arithmetic of the host, where every sum,
  difference and product is rounded to the nearest double and every quotient is rounded
  before its fraction is cut off. For a tree with safe integers in all its parts this
  is the value in the arithmetic of the integers, with the quotient rounded toward zero.
  A division of a number of magnitude up to \<open>2^53\<close> is the quotient rounded toward zero,
  and a division by zero is an error. So \<^verbatim>\<open>(x+z)/2\<close> with \<open>x = 5\<close>, \<open>z = 1\<close> is 3, and
  \<^verbatim>\<open>-1/2\<close> is 0, where the floor of the quotient is \<open>-1\<close>.
\<close>

theorem C2_amended:
  "(evaluateIntegerExpression expr scope field = Inr n \<longrightarrow>
      (\<exists>tokens e. tokenizeExpression expr = Inr tokens \<and> expr_g tokens e [] \<and>
         tree_value scope e = Some n)) \<and>
   (safe_tree scope e \<longrightarrow> tree_value scope e = exact_value scope e) \<and>
   (\<bar>l\<bar> \<le> 2 ^ 53 \<longrightarrow>
      applyIntOp l (CHR ''/'') r field =
        (if r = 0 then Inl (DivisionByZero field) else Inr (sgn l * sgn r * (\<bar>l\<bar> div \<bar>r\<bar>)))) \<and>
   applyIntOp l (CHR ''/'') 0 field = Inl (DivisionByZero field) \<and>
   evaluateIntegerExpression ''(x+z)/2'' [''x'' \<mapsto> SNum 5, ''z'' \<mapsto> SNum 1] field = Inr 3 \<and>
   evaluateIntegerExpression ''-1/2'' scope field = Inr 0 \<and> (- 1) div (2 :: int) = - 1"
  using evaluate_sound[of expr scope field n] example_sum_halved[of field]
    example_minus_one_half[of scope field] safe_tree_exact[of scope e]
    applyIntOp_exact(4)[of l r field]
  by (simp add: applyIntOp_def)

theorem C2_witness:
  "evaluateIntegerExpression ''2+3*(4-1)/-2'' Map.empty ''place.x'' = Inr (- 2) \<and>
   (\<exists>tokens e. tokenizeExpression ''2+3*(4-1)/-2'' = Inr tokens \<and> expr_g tokens e [] \<and>
      tree_value Map.empty e = Some (- 2)) \<and>
   safe_tree Map.empty (Binary (Unary CHR ''-'' (Number (Some 7))) CHR ''/'' (Number (Some 2))) \<and>
   tree_value Map.empty (Binary (Unary CHR ''-'' (Number (Some 7))) CHR ''/'' (Number (Some 2))) =
     Some (- 3) \<and>
   applyIntOp (- 7) (CHR ''/'') 2 ''place.x'' = Inr (- 3) \<and> (- 7) div (2 :: int) = - 4"
proof -
  let ?e = "Binary (Unary CHR ''-'' (Number (Some 7))) CHR ''/'' (Number (Some 2))"
  have h: "evaluateIntegerExpression ''2+3*(4-1)/-2'' Map.empty ''place.x'' = Inr (- 2)"
    by (simp add: eval_expr_simps)
  have s: "safe_tree Map.empty ?e"
    by (simp add: safe_value_def safe_integer_def)
  have x: "exact_value Map.empty ?e = Some (- 3)"
    by simp
  note law = C2_amended[of "''2+3*(4-1)/-2''" Map.empty "''place.x''" "- 2" ?e "- 7" 2]
  from law h have 1: "\<exists>tokens e. tokenizeExpression ''2+3*(4-1)/-2'' = Inr tokens \<and>
      expr_g tokens e [] \<and> tree_value Map.empty e = Some (- 2)"
    by blast
  from law s x have 2: "tree_value Map.empty ?e = Some (- 3)"
    by simp
  from law have 3: "applyIntOp (- 7) (CHR ''/'') 2 ''place.x'' = Inr (- 3)"
    by simp
  from h 1 s 2 3 show ?thesis by simp
qed

subsection \<open>When the evaluator fails\<close>






lemma tokenize_classes:
  "is_space ch \<Longrightarrow> expression_char ch" "is_digit ch \<Longrightarrow> expression_char ch"
  "is_ident_start ch \<Longrightarrow> expression_char ch"
  by (auto simp: expression_char_def is_ident_char_def)











lemma evaluator_beyond_beyond: "evaluator_beyond scope e \<Longrightarrow> beyond e"
  by (cases e) (simp_all add: evaluator_beyond_def beyond_def)






subsection \<open>Claim C8\<close>




subsection \<open>Block types\<close>

lemmas string_simps = trim_def toLowerCase_def lower_char_def char_of_def bit_0 is_identifier_def
  is_integer_text_def replace_hyphens_def startsWith_def char_class_defs

lemmas inherited_simps = inherited_def Object_prototype_names_def


lemma normalizeBlockType_result:
  "normalizeBlockType catalog raw scope = Inr s \<Longrightarrow>
   (\<exists>t. s = (if normalized_identifier t \<in> set catalog then normalized_identifier t
              else pickFallbackBlockType catalog))"
  by (auto simp: normalizeBlockType_def Let_def split: sum.splits if_splits)


text \<open>
  C6. The normalizer is not total: \<^verbatim>\<open>String(resolved)\<close> throws a \<^verbatim>\<open>TypeError\<close> for an
  object with a property \<^verbatim>\<open>toString\<close> of its own, as in the document
  \<^verbatim>\<open>{"blocks":[{"x":0,"y":0,"z":0,"blockType":{"toString":1}}]}\<close>, and the exception leaves
  \<^verbatim>\<open>normalizeBlockType\<close> and \<^verbatim>\<open>parseBlocksFromResponse\<close>. (When the normalizer returns, with
  a catalog that is not empty, the identifier is in the catalog: \<open>normalizeBlockType_member\<close>.)
\<close>

theorem C6_normalizer_throws:
  "normalizeBlockType catalog (Some (JObj [(''toString'', JNum 1)])) scope =
     Inl CannotConvertToPrimitive \<and>
   parseBlocksFromResponse catalog
     (JObj [(''blocks'', JArr [JObj [(''x'', JNum 0), (''y'', JNum 0), (''z'', JNum 0),
        (''blockType'', JObj [(''toString'', JNum 1)])]])]) = Inl CannotConvertToPrimitive"
  by (simp add: normalizeBlockType_def resolveScopedValue_def parseBlocksFromResponse_def
      isArray_def legacyBlocks_def normalizeLegacyBlocks_def normalizeLegacyBlock_def
      evalIntExpr_def Number_of_small)

subsection \<open>Call arguments\<close>

lemma Number_of_huge: "Number_of huge_number = None"
  unfolding huge_number_def by (simp add: number_simps)

text \<open>
  C9 as the specification states it fails: a string with white space around it is not
  passed on unchanged, and an empty string and a boolean are not passed on at all.
\<close>

theorem C9_counterexample:
  "evalCallArgValue (Some (JStr '' oak log '')) Map.empty ''call.f.args.t'' = Inr (SStr ''oak log'') \<and>
   '' oak log '' \<noteq> ''oak log'' \<and>
   evalCallArgValue (Some (JStr '''')) Map.empty ''call.f.args.t'' = Inl (CannotBeEmpty ''call.f.args.t'') \<and>
   evalCallArgValue (Some (JBool True)) Map.empty ''call.f.args.t'' =
     Inl (NotNumberOrString ''call.f.args.t'')"
  by (simp add: evalCallArgValue_def string_simps eval_expr_simps inherited_simps beyond_def)

text \<open>
  C9, amended. A finite number is truncated to an integer; a number that is not finite is
  an error. A string is trimmed first; when nothing is left the argument is an error. The
  trimmed text, when it is a bare identifier bound in the caller's scope, passes that
  binding on as it is; otherwise it is evaluated as an expression, and when the
  evaluation fails the trimmed text itself is the value. Every other value (\<^verbatim>\<open>null\<close>, a
  boolean, an array, an object, a missing property) is an error. Left out are a text
  that names a member of \<^verbatim>\<open>Object.prototype\<close> and no binding, and an evaluation that leaves
  the model, which is no failure.
\<close>

theorem C9_amended:
  "(\<forall>q. raw = Some (JNum q) \<longrightarrow>
      evalCallArgValue raw scope field =
        (case Number_of q of
           Some v \<Rightarrow> Inr (SNum (Math_trunc v))
         | None \<Rightarrow> Inl (NotNumberOrString field))) \<and>
   (\<forall>s. raw = Some (JStr s) \<longrightarrow>
      (trim s = [] \<longrightarrow> evalCallArgValue raw scope field = Inl (CannotBeEmpty field)) \<and>
      (\<forall>bound. trim s \<noteq> [] \<longrightarrow> is_identifier (trim s) \<longrightarrow> scope (trim s) = Some bound \<longrightarrow>
         evalCallArgValue raw scope field = Inr bound) \<and>
      (trim s \<noteq> [] \<longrightarrow>
       \<not> (is_identifier (trim s) \<and> (scope (trim s) \<noteq> None \<or> inherited (trim s))) \<longrightarrow>
         evalCallArgValue raw scope field =
           (case evaluateIntegerExpression (trim s) scope field of
              Inr n \<Rightarrow> Inr (SNum n)
            | Inl e \<Rightarrow> if beyond e then Inl e else Inr (SStr (trim s))))) \<and>
   ((\<forall>q. raw \<noteq> Some (JNum q)) \<longrightarrow> (\<forall>s. raw \<noteq> Some (JStr s)) \<longrightarrow>
      evalCallArgValue raw scope field = Inl (NotNumberOrString field))"
  by (auto simp: evalCallArgValue_def Let_def split: option.splits json.splits sum.splits)

theorem C9_witness:
  "evalCallArgValue (Some (JNum 7)) Map.empty ''f'' = Inr (SNum 7) \<and>
   evalCallArgValue (Some (JNum huge_number)) Map.empty ''f'' = Inl (NotNumberOrString ''f'') \<and>
   evalCallArgValue (Some (JStr '' t '')) [''t'' \<mapsto> SStr ''5''] ''f'' = Inr (SStr ''5'') \<and>
   evalCallArgValue (Some (JStr ''t+1'')) [''t'' \<mapsto> SStr ''5''] ''f'' = Inr (SNum 6) \<and>
   evalCallArgValue (Some (JStr ''minecraft:glass'')) [''t'' \<mapsto> SStr ''5''] ''f'' =
     Inr (SStr ''minecraft:glass'') \<and>
   evalCallArgValue (Some (JStr ''  '')) Map.empty ''f'' = Inl (CannotBeEmpty ''f'') \<and>
   evalCallArgValue (Some JNull) Map.empty ''f'' = Inl (NotNumberOrString ''f'')"
proof -
  have t1: "trim '' t '' = ''t''" "trim ''t+1'' = ''t+1''" "trim ''minecraft:glass'' = ''minecraft:glass''"
    "trim ''  '' = []"
    by (simp_all add: trim_def is_space_def)
  have i1: "is_identifier ''t''" "\<not> is_identifier ''t+1''" "\<not> is_identifier ''minecraft:glass''"
    by (simp_all add: is_identifier_def char_class_defs)
  have e1: "evaluateIntegerExpression ''t+1'' [''t'' \<mapsto> SStr ''5''] ''f'' = Inr 6"
    by (simp add: eval_expr_simps string_simps)
  have e2: "evaluateIntegerExpression ''minecraft:glass'' [''t'' \<mapsto> SStr ''5''] ''f'' =
      Inl (InvalidCharacter CHR '':'')"
    by (simp add: eval_expr_simps string_simps)
  have m: "Number_of 7 = Some 7"
    by (simp add: Number_of_small)
  show ?thesis
    using C9_amended[of "Some (JNum 7)" Map.empty "''f''"]
      C9_amended[of "Some (JNum huge_number)" Map.empty "''f''"]
      C9_amended[of "Some (JStr '' t '')" "[''t'' \<mapsto> SStr ''5'']" "''f''"]
      C9_amended[of "Some (JStr ''t+1'')" "[''t'' \<mapsto> SStr ''5'']" "''f''"]
      C9_amended[of "Some (JStr ''minecraft:glass'')" "[''t'' \<mapsto> SStr ''5'']" "''f''"]
      C9_amended[of "Some (JStr ''  '')" Map.empty "''f''"]
      C9_amended[of "Some JNull" Map.empty "''f''"]
    by (simp add: t1 i1 e1 e2 m Number_of_huge beyond_def)
qed

subsection \<open>The two formats of a document\<close>

text \<open>
  C5. A document with an array \<^verbatim>\<open>steps\<close> or \<^verbatim>\<open>defs\<close> is expanded as a compact program.
  When the expansion throws and \<^verbatim>\<open>blocks\<close> is an array, the result is the legacy parse of
  \<^verbatim>\<open>blocks\<close>; when \<^verbatim>\<open>blocks\<close> is no array, the error of the expansion. A document with
  none of the three arrays is rejected as missing steps/defs or blocks. An expansion that
  leaves the model or never returns throws nothing, and there is nothing to fall back
  from.
\<close>

theorem C5_dispatch:
  "(isArray (map_of doc ''steps'') \<or> isArray (map_of doc ''defs'') \<longrightarrow>
      (\<forall>blocks. expandCompactProgram catalog doc = Inr blocks \<longrightarrow>
         parseBlocksFromResponse catalog (JObj doc) = Inr (take MAX_BLOCKS blocks)) \<and>
      (\<forall>e rawBlocks. expandCompactProgram catalog doc = Inl e \<longrightarrow> \<not> beyond e \<longrightarrow>
         map_of doc ''blocks'' = Some (JArr rawBlocks) \<longrightarrow>
         parseBlocksFromResponse catalog (JObj doc) = legacyBlocks catalog rawBlocks) \<and>
      (\<forall>e. expandCompactProgram catalog doc = Inl e \<longrightarrow> \<not> isArray (map_of doc ''blocks'') \<longrightarrow>
         parseBlocksFromResponse catalog (JObj doc) = Inl e) \<and>
      (\<forall>e. expandCompactProgram catalog doc = Inl e \<longrightarrow> beyond e \<longrightarrow>
         parseBlocksFromResponse catalog (JObj doc) = Inl e)) \<and>
   (\<not> isArray (map_of doc ''steps'') \<longrightarrow> \<not> isArray (map_of doc ''defs'') \<longrightarrow>
      \<not> isArray (map_of doc ''blocks'') \<longrightarrow>
      parseBlocksFromResponse catalog (JObj doc) = Inl MissingStepsDefsOrBlocks)"
  by (auto simp: parseBlocksFromResponse_def isArray_def split: option.splits json.splits sum.splits)

subsection \<open>Legacy documents\<close>

lemma evaluate_field:
  "evaluateIntegerExpression expr scope field = Inr n \<Longrightarrow>
   evaluateIntegerExpression expr scope field' = Inr n"
  by (simp add: evaluate_iff)



lemma resolveScopedValue_empty:
  "resolveScopedValue raw Map.empty =
     (case raw of
        Some (JStr s) \<Rightarrow>
          if is_identifier (trim s) \<and> inherited (trim s) then Inl (InheritedMember (trim s))
          else Inr raw
      | _ \<Rightarrow> Inr raw)"
  by (auto simp: resolveScopedValue_def Let_def split: option.splits json.splits)



lemma normalizeLegacyBlocksFrom_all:
  "(\<forall>j < length raws. \<exists>b. normalizeLegacyBlock catalog (raws ! j) (idx + j) = Inr b) \<Longrightarrow>
   \<exists>bs. normalizeLegacyBlocksFrom catalog idx raws = Inr bs \<and> length bs = length raws \<and>
     (\<forall>j < length raws. normalizeLegacyBlock catalog (raws ! j) (idx + j) = Inr (bs ! j))"
proof (induction raws arbitrary: idx)
  case Nil
  then show ?case by simp
next
  case (Cons raw raws)
  from Cons.prems[rule_format, of 0] obtain b where b: "normalizeLegacyBlock catalog raw idx = Inr b"
    by auto
  have "\<forall>j < length raws. \<exists>b. normalizeLegacyBlock catalog (raws ! j) (Suc idx + j) = Inr b"
    using Cons.prems by (auto dest: spec[where x = "Suc j" for j])
  from Cons.IH[OF this] obtain bs where bs: "normalizeLegacyBlocksFrom catalog (Suc idx) raws = Inr bs"
    "length bs = length raws"
    "\<forall>j < length raws. normalizeLegacyBlock catalog (raws ! j) (Suc idx + j) = Inr (bs ! j)"
    by blast
  have "\<forall>j < length (raw # raws). normalizeLegacyBlock catalog ((raw # raws) ! j) (idx + j) = Inr ((b # bs) ! j)"
  proof (intro allI impI)
    fix j assume "j < length (raw # raws)"
    then show "normalizeLegacyBlock catalog ((raw # raws) ! j) (idx + j) = Inr ((b # bs) ! j)"
      using b bs(3) by (cases j) auto
  qed
  with b bs(1,2) show ?case by simp
qed

lemma normalizeLegacyBlocksFrom_first_failure:
  "i < length raws \<Longrightarrow>
   (\<forall>j < i. \<exists>b. normalizeLegacyBlock catalog (raws ! j) (idx + j) = Inr b) \<Longrightarrow>
   normalizeLegacyBlock catalog (raws ! i) (idx + i) = Inl e \<Longrightarrow>
   normalizeLegacyBlocksFrom catalog idx raws = Inl e"
proof (induction raws arbitrary: idx i)
  case Nil
  then show ?case by simp
next
  case (Cons raw raws)
  show ?case
  proof (cases i)
    case 0
    with Cons.prems show ?thesis by simp
  next
    case (Suc k)
    from Cons.prems(2)[rule_format, of 0] Suc obtain b where
      b: "normalizeLegacyBlock catalog raw idx = Inr b" by auto
    have 1: "k < length raws" using Cons.prems(1) Suc by simp
    have 2: "\<forall>j < k. \<exists>b. normalizeLegacyBlock catalog (raws ! j) (Suc idx + j) = Inr b"
    proof (intro allI impI)
      fix j assume "j < k"
      with Cons.prems(2)[rule_format, of "Suc j"] Suc
      show "\<exists>b. normalizeLegacyBlock catalog (raws ! j) (Suc idx + j) = Inr b" by simp
    qed
    have 3: "normalizeLegacyBlock catalog (raws ! k) (Suc idx + k) = Inl e"
      using Cons.prems(3) Suc by simp
    from Cons.IH[OF 1 2 3] b show ?thesis by simp
  qed
qed







text \<open>
  C10. Every entry of \<^verbatim>\<open>blocks\<close> is normalised before the result is cut to the maximum:
  a malformed entry at an index at or beyond the maximum, after valid ones, makes
  \<^verbatim>\<open>parseBlocksFromResponse\<close> throw the error of that entry, although the entries before
  the maximum alone give a full result.
\<close>

theorem C10_validation_before_truncation:
  assumes "\<not> isArray (map_of doc ''steps'')" "\<not> isArray (map_of doc ''defs'')"
    and "map_of doc ''blocks'' = Some (JArr rawBlocks)"
    and "MAX_BLOCKS \<le> i" "i < length rawBlocks"
    and "\<forall>j < i. \<exists>b. normalizeLegacyBlock catalog (rawBlocks ! j) j = Inr b"
    and "normalizeLegacyBlock catalog (rawBlocks ! i) i = Inl e"
  shows "parseBlocksFromResponse catalog (JObj doc) = Inl e \<and>
         (\<exists>blocks. legacyBlocks catalog (take MAX_BLOCKS rawBlocks) = Inr blocks \<and>
            length blocks = MAX_BLOCKS)"
proof -
  have "normalizeLegacyBlocksFrom catalog 0 rawBlocks = Inl e"
    using normalizeLegacyBlocksFrom_first_failure[of i rawBlocks catalog 0 e] assms(5-7) by simp
  then have p: "parseBlocksFromResponse catalog (JObj doc) = Inl e"
    using assms(1-3)
    by (simp add: parseBlocksFromResponse_def legacyBlocks_def normalizeLegacyBlocks_def)
  have "\<forall>j < length (take MAX_BLOCKS rawBlocks).
      \<exists>b. normalizeLegacyBlock catalog (take MAX_BLOCKS rawBlocks ! j) (0 + j) = Inr b"
    using assms(4-6) by simp
  from normalizeLegacyBlocksFrom_all[OF this] obtain bs where
    "normalizeLegacyBlocksFrom catalog 0 (take MAX_BLOCKS rawBlocks) = Inr bs"
    "length bs = length (take MAX_BLOCKS rawBlocks)" by blast
  then have "legacyBlocks catalog (take MAX_BLOCKS rawBlocks) = Inr (take MAX_BLOCKS bs) \<and>
      length (take MAX_BLOCKS bs) = MAX_BLOCKS"
    using assms(4,5) by (simp add: legacyBlocks_def normalizeLegacyBlocks_def)
  with p show ?thesis by blast
qed

subsection \<open>The theorems on concrete documents\<close>

lemma normalized_glass: "normalized_identifier ''Glass'' = ''minecraft:glass''"
  by (simp add: normalized_identifier_def string_simps DEFAULT_BLOCK_TYPE_def)

lemma good_entry_block:
  "normalizeLegacyBlock DEFAULT_ALLOWED_BLOCK_TYPES good_entry idx =
     Inr \<lparr>block_x = 1, block_y = 6, block_z = - 5, blockType = ''minecraft:glass''\<rparr>"
proof -
  have t: "trim ''2*3'' = ''2*3''" by (simp add: trim_def is_space_def)
  have e: "evaluateIntegerExpression ''2*3'' Map.empty field = Inr 6" for field
    by (simp add: eval_expr_simps)
  have g: "trim ''Glass'' = ''Glass''" "is_identifier ''Glass''" "\<not> inherited ''Glass''"
    by (simp_all add: string_simps inherited_simps)
  show ?thesis
    by (simp add: good_entry_def normalizeLegacyBlock_def evalIntExpr_def Number_of_small t e g
        normalizeBlockType_def resolveScopedValue_empty normalized_glass
        DEFAULT_ALLOWED_BLOCK_TYPES_def)
qed






theorem C10_witness:
  "parseBlocksFromResponse DEFAULT_ALLOWED_BLOCK_TYPES
     (JObj [(''blocks'', JArr (replicate MAX_BLOCKS good_entry @ [JNull]))]) =
     Inl (LegacyNotObject MAX_BLOCKS) \<and>
   (\<exists>blocks. legacyBlocks DEFAULT_ALLOWED_BLOCK_TYPES
        (take MAX_BLOCKS (replicate MAX_BLOCKS good_entry @ [JNull])) = Inr blocks \<and>
      length blocks = MAX_BLOCKS)"
proof -
  let ?raws = "replicate MAX_BLOCKS good_entry @ [JNull]"
  have 1: "\<forall>j < MAX_BLOCKS. \<exists>b. normalizeLegacyBlock DEFAULT_ALLOWED_BLOCK_TYPES (?raws ! j) j = Inr b"
    by (simp add: nth_append good_entry_block)
  have 2: "normalizeLegacyBlock DEFAULT_ALLOWED_BLOCK_TYPES (?raws ! MAX_BLOCKS) MAX_BLOCKS =
      Inl (LegacyNotObject MAX_BLOCKS)"
    by (simp add: nth_append normalizeLegacyBlock_def)
  show ?thesis
    using C10_validation_before_truncation[of "[(''blocks'', JArr ?raws)]" ?raws MAX_BLOCKS
        DEFAULT_ALLOWED_BLOCK_TYPES "LegacyNotObject MAX_BLOCKS"] 1 2
    by (simp add: isArray_def)
qed

lemma bad_step:
  "expandCompactProgram catalog [(''steps'', JArr [JNum 1])] = Inl StepNotObject"
  "expandCompactProgram catalog [(''steps'', JArr [JNum 1]), (''blocks'', b)] = Inl StepNotObject"
  by (simp_all add: expandCompactProgram_def exec_simps limit_defs)

theorem C5_witness:
  "parseBlocksFromResponse DEFAULT_ALLOWED_BLOCK_TYPES (JObj [(''steps'', JArr [])]) = Inr [] \<and>
   parseBlocksFromResponse DEFAULT_ALLOWED_BLOCK_TYPES
     (JObj [(''steps'', JArr [JNum 1]), (''blocks'', JArr [good_entry])]) =
     Inr [\<lparr>block_x = 1, block_y = 6, block_z = - 5, blockType = ''minecraft:glass''\<rparr>] \<and>
   parseBlocksFromResponse DEFAULT_ALLOWED_BLOCK_TYPES (JObj [(''steps'', JArr [JNum 1])]) =
     Inl StepNotObject \<and>
   parseBlocksFromResponse DEFAULT_ALLOWED_BLOCK_TYPES (JObj [(''note'', JStr ''a hut'')]) =
     Inl MissingStepsDefsOrBlocks"
proof -
  have a: "expandCompactProgram DEFAULT_ALLOWED_BLOCK_TYPES [(''steps'', JArr [])] = Inr []"
    by (simp add: expandCompactProgram_def exec_simps limit_defs)
  have l: "legacyBlocks DEFAULT_ALLOWED_BLOCK_TYPES [good_entry] =
      Inr [\<lparr>block_x = 1, block_y = 6, block_z = - 5, blockType = ''minecraft:glass''\<rparr>]"
    by (simp add: legacyBlocks_def normalizeLegacyBlocks_def good_entry_block MAX_BLOCKS_def)
  show ?thesis
    using C5_dispatch[of "[(''steps'', JArr [])]" DEFAULT_ALLOWED_BLOCK_TYPES]
      C5_dispatch[of "[(''steps'', JArr [JNum 1]), (''blocks'', JArr [good_entry])]"
        DEFAULT_ALLOWED_BLOCK_TYPES]
      C5_dispatch[of "[(''steps'', JArr [JNum 1])]" DEFAULT_ALLOWED_BLOCK_TYPES]
      C5_dispatch[of "[(''note'', JStr ''a hut'')]" DEFAULT_ALLOWED_BLOCK_TYPES]
    by (simp add: isArray_def a l bad_step beyond_def)
qed

subsection \<open>The interpreter, step by step\<close>

text \<open>The equations of the interpreter, one for each way a step can go.\<close>

lemma executeForStep_header:
  "executeForStep catalog defs step scope st callDepth =
     (case forHeader step scope of
        Inl e \<Rightarrow> (Some e, st)
      | Inr (varName, from, to, stride, body) \<Rightarrow>
          if stride > 0 then forLoopUp catalog defs body scope varName from to stride st callDepth
          else forLoopDown catalog defs body scope varName from to stride st callDepth)"
  by (subst executeForStep.simps)
    (simp add: forHeader_def Let_def split: sum.splits option.splits json.splits)

lemma executeCallStep_target:
  "executeCallStep catalog defs step scope st callDepth =
     (if MAX_CALLS < calls st + 1 then (Some CallsExceeded, st\<lparr>calls := calls st + 1\<rparr>)
      else
        (case callTarget defs step scope of
           Inl e \<Rightarrow> (Some e, st\<lparr>calls := calls st + 1\<rparr>)
         | Inr (body, args) \<Rightarrow>
             executeSteps catalog defs body (scope ++ args) (st\<lparr>calls := calls st + 1\<rparr>)
               (callDepth + 1)))"
  by (subst executeCallStep.simps)
    (simp add: callTarget_def Let_def split: sum.splits option.splits json.splits)

lemma executeStepsLoop_Nil: "executeStepsLoop catalog defs [] scope st callDepth = (None, st)"
  by (subst executeStepsLoop.simps) simp

lemma executeStepsLoop_full:
  "MAX_BLOCKS \<le> length (out st) \<Longrightarrow> executeStepsLoop catalog defs steps scope st callDepth = (None, st)"
  by (subst executeStepsLoop.simps) (simp split: list.splits)

lemma executeStepsLoop_exceeded:
  "\<not> MAX_BLOCKS \<le> length (out st) \<Longrightarrow> MAX_EXECUTED_STEPS < executedSteps st + 1 \<Longrightarrow>
   executeStepsLoop catalog defs (rawStep # rest) scope st callDepth =
     (Some ExecutedStepsExceeded, st\<lparr>executedSteps := executedSteps st + 1\<rparr>)"
  by (subst executeStepsLoop.simps) (simp add: Let_def)

lemma executeStepsLoop_not_object:
  "\<not> MAX_BLOCKS \<le> length (out st) \<Longrightarrow> \<not> MAX_EXECUTED_STEPS < executedSteps st + 1 \<Longrightarrow>
   \<forall>step. rawStep \<noteq> JObj step \<Longrightarrow>
   executeStepsLoop catalog defs (rawStep # rest) scope st callDepth =
     (Some StepNotObject, st\<lparr>executedSteps := executedSteps st + 1\<rparr>)"
  by (subst executeStepsLoop.simps) (cases rawStep; simp add: Let_def)

lemma executeStepsLoop_op_error:
  "\<not> MAX_BLOCKS \<le> length (out st) \<Longrightarrow> \<not> MAX_EXECUTED_STEPS < executedSteps st + 1 \<Longrightarrow>
   String_or_empty (map_of step ''op'') = Inl e \<Longrightarrow>
   executeStepsLoop catalog defs (JObj step # rest) scope st callDepth =
     (Some e, st\<lparr>executedSteps := executedSteps st + 1\<rparr>)"
  by (subst executeStepsLoop.simps) (simp add: Let_def)

lemma executeStepsLoop_place:
  "\<not> MAX_BLOCKS \<le> length (out st) \<Longrightarrow> \<not> MAX_EXECUTED_STEPS < executedSteps st + 1 \<Longrightarrow>
   String_or_empty (map_of step ''op'') = Inr s \<Longrightarrow>
   toLowerCase s = ''place'' \<or> toLowerCase s = ''block'' \<Longrightarrow>
   executeStepsLoop catalog defs (JObj step # rest) scope st callDepth =
     (case normalizeCompactBlock catalog step scope of
        Inl e \<Rightarrow> (Some e, st\<lparr>executedSteps := executedSteps st + 1\<rparr>)
      | Inr b \<Rightarrow>
          executeStepsLoop catalog defs rest scope
            (st\<lparr>executedSteps := executedSteps st + 1, out := out st @ [b]\<rparr>) callDepth)"
  by (subst executeStepsLoop.simps) (auto simp: Let_def split: sum.splits)

lemma executeStepsLoop_for:
  "\<not> MAX_BLOCKS \<le> length (out st) \<Longrightarrow> \<not> MAX_EXECUTED_STEPS < executedSteps st + 1 \<Longrightarrow>
   String_or_empty (map_of step ''op'') = Inr s \<Longrightarrow> toLowerCase s = ''for'' \<Longrightarrow>
   executeStepsLoop catalog defs (JObj step # rest) scope st callDepth =
     (case executeForStep catalog defs step scope
             (st\<lparr>executedSteps := executedSteps st + 1\<rparr>) callDepth of
        (Some e, st2) \<Rightarrow> (Some e, st2)
      | (None, st2) \<Rightarrow> executeStepsLoop catalog defs rest scope st2 callDepth)"
  by (subst executeStepsLoop.simps) (simp add: Let_def)

lemma executeStepsLoop_call:
  "\<not> MAX_BLOCKS \<le> length (out st) \<Longrightarrow> \<not> MAX_EXECUTED_STEPS < executedSteps st + 1 \<Longrightarrow>
   String_or_empty (map_of step ''op'') = Inr s \<Longrightarrow> toLowerCase s = ''call'' \<Longrightarrow>
   executeStepsLoop catalog defs (JObj step # rest) scope st callDepth =
     (case executeCallStep catalog defs step scope
             (st\<lparr>executedSteps := executedSteps st + 1\<rparr>) callDepth of
        (Some e, st2) \<Rightarrow> (Some e, st2)
      | (None, st2) \<Rightarrow> executeStepsLoop catalog defs rest scope st2 callDepth)"
  by (subst executeStepsLoop.simps) (simp add: Let_def)

lemma executeStepsLoop_unsupported:
  "\<not> MAX_BLOCKS \<le> length (out st) \<Longrightarrow> \<not> MAX_EXECUTED_STEPS < executedSteps st + 1 \<Longrightarrow>
   String_or_empty (map_of step ''op'') = Inr s \<Longrightarrow>
   toLowerCase s \<noteq> ''place'' \<Longrightarrow> toLowerCase s \<noteq> ''block'' \<Longrightarrow> toLowerCase s \<noteq> ''for'' \<Longrightarrow>
   toLowerCase s \<noteq> ''call'' \<Longrightarrow>
   executeStepsLoop catalog defs (JObj step # rest) scope st callDepth =
     (Some (UnsupportedOp (toLowerCase s)), st\<lparr>executedSteps := executedSteps st + 1\<rparr>)"
  by (subst executeStepsLoop.simps) (simp add: Let_def)

lemma forLoopUp_stop:
  "\<not> (0 < stride \<and> i \<le> to) \<Longrightarrow>
   forLoopUp catalog defs body scope varName i to stride st callDepth = (None, st)"
  by (subst forLoopUp.simps) auto

lemma forLoopUp_iterate:
  "0 < stride \<and> i \<le> to \<Longrightarrow>
   forLoopUp catalog defs body scope varName i to stride st callDepth =
     (case executeSteps catalog defs body (scope(varName \<mapsto> SNum i)) st (callDepth + 1) of
        (Some e, st1) \<Rightarrow> (Some e, st1)
      | (None, st1) \<Rightarrow>
          if MAX_BLOCKS \<le> length (out st1) then (None, st1)
          else
            (case Number_int (i + stride) of
               None \<Rightarrow> (None, st1)
             | Some next \<Rightarrow>
                 if i < next then
                   forLoopUp catalog defs body scope varName next to stride st1 callDepth
                 else if next = i \<and> executedSteps st < executedSteps st1 \<and>
                     executedSteps st1 \<le> MAX_EXECUTED_STEPS then
                   forLoopUp catalog defs body scope varName next to stride st1 callDepth
                 else (Some NeverReturns, st1)))"
  by (subst forLoopUp.simps) auto

lemma forLoopUp_exact:
  "0 < stride \<and> i \<le> to \<Longrightarrow> \<bar>i + stride\<bar> \<le> 2 ^ 53 \<Longrightarrow>
   forLoopUp catalog defs body scope varName i to stride st callDepth =
     (case executeSteps catalog defs body (scope(varName \<mapsto> SNum i)) st (callDepth + 1) of
        (Some e, st1) \<Rightarrow> (Some e, st1)
      | (None, st1) \<Rightarrow>
          if MAX_BLOCKS \<le> length (out st1) then (None, st1)
          else forLoopUp catalog defs body scope varName (i + stride) to stride st1 callDepth)"
  by (subst forLoopUp.simps) (auto simp: Number_int_exact split: prod.splits option.splits)

lemma forLoopDown_stop:
  "\<not> (stride < 0 \<and> to \<le> i) \<Longrightarrow>
   forLoopDown catalog defs body scope varName i to stride st callDepth = (None, st)"
  by (subst forLoopDown.simps) auto

lemma forLoopDown_iterate:
  "stride < 0 \<and> to \<le> i \<Longrightarrow>
   forLoopDown catalog defs body scope varName i to stride st callDepth =
     (case executeSteps catalog defs body (scope(varName \<mapsto> SNum i)) st (callDepth + 1) of
        (Some e, st1) \<Rightarrow> (Some e, st1)
      | (None, st1) \<Rightarrow>
          if MAX_BLOCKS \<le> length (out st1) then (None, st1)
          else
            (case Number_int (i + stride) of
               None \<Rightarrow> (None, st1)
             | Some next \<Rightarrow>
                 if next < i then
                   forLoopDown catalog defs body scope varName next to stride st1 callDepth
                 else if next = i \<and> executedSteps st < executedSteps st1 \<and>
                     executedSteps st1 \<le> MAX_EXECUTED_STEPS then
                   forLoopDown catalog defs body scope varName next to stride st1 callDepth
                 else (Some NeverReturns, st1)))"
  by (subst forLoopDown.simps) auto

lemma forLoopDown_exact:
  "stride < 0 \<and> to \<le> i \<Longrightarrow> \<bar>i + stride\<bar> \<le> 2 ^ 53 \<Longrightarrow>
   forLoopDown catalog defs body scope varName i to stride st callDepth =
     (case executeSteps catalog defs body (scope(varName \<mapsto> SNum i)) st (callDepth + 1) of
        (Some e, st1) \<Rightarrow> (Some e, st1)
      | (None, st1) \<Rightarrow>
          if MAX_BLOCKS \<le> length (out st1) then (None, st1)
          else forLoopDown catalog defs body scope varName (i + stride) to stride st1 callDepth)"
  by (subst forLoopDown.simps) (auto simp: Number_int_exact split: prod.splits option.splits)

lemma executeStepsLoop_Cons:
  "executeStepsLoop catalog defs (rawStep # rest) scope st callDepth =
     (if MAX_BLOCKS \<le> length (out st) then (None, st)
      else if MAX_EXECUTED_STEPS < executedSteps st + 1
        then (Some ExecutedStepsExceeded, st\<lparr>executedSteps := executedSteps st + 1\<rparr>)
      else
        (case loop_body catalog defs rawStep scope
                (st\<lparr>executedSteps := executedSteps st + 1\<rparr>) callDepth of
           (Some e, st2) \<Rightarrow> (Some e, st2)
         | (None, st2) \<Rightarrow> executeStepsLoop catalog defs rest scope st2 callDepth))"
proof (cases "MAX_BLOCKS \<le> length (out st)")
  case True
  then show ?thesis by (simp add: executeStepsLoop_full)
next
  case room: False
  show ?thesis
  proof (cases "MAX_EXECUTED_STEPS < executedSteps st + 1")
    case True
    with room show ?thesis by (simp add: executeStepsLoop_exceeded)
  next
    case budget: False
    show ?thesis
    proof (cases "\<exists>step. rawStep = JObj step")
      case False
      then have no: "\<forall>step. rawStep \<noteq> JObj step" by blast
      have "loop_body catalog defs rawStep scope
          (st\<lparr>executedSteps := executedSteps st + 1\<rparr>) callDepth =
          (Some StepNotObject, st\<lparr>executedSteps := executedSteps st + 1\<rparr>)"
        using no by (cases rawStep) (simp_all add: loop_body_def)
      with room budget show ?thesis
        by (simp add: executeStepsLoop_not_object[OF room budget no])
    next
      case True
      then obtain step where JObj: "rawStep = JObj step" by blast
      show ?thesis
      proof (cases "String_or_empty (map_of step ''op'')")
        case (Inl e)
        with room budget show ?thesis
          unfolding JObj
          by (simp add: executeStepsLoop_op_error[OF room budget Inl] loop_body_def)
      next
        case (Inr s)
        consider (is_place) "toLowerCase s = ''place'' \<or> toLowerCase s = ''block''"
          | (is_for) "toLowerCase s = ''for''"
          | (is_call) "toLowerCase s = ''call''"
          | (is_other) "toLowerCase s \<noteq> ''place''" "toLowerCase s \<noteq> ''block''"
              "toLowerCase s \<noteq> ''for''" "toLowerCase s \<noteq> ''call''"
          by blast
        then show ?thesis
        proof cases
          case is_place
          with room budget Inr show ?thesis
            unfolding JObj
            by (cases "normalizeCompactBlock catalog step scope")
              (auto simp: executeStepsLoop_place[OF room budget Inr is_place] loop_body_def)
        next
          case is_for
          with room budget Inr show ?thesis
            unfolding JObj
            by (simp add: executeStepsLoop_for[OF room budget Inr is_for] loop_body_def)
        next
          case is_call
          with room budget Inr show ?thesis
            unfolding JObj
            by (simp add: executeStepsLoop_call[OF room budget Inr is_call] loop_body_def)
        next
          case is_other
          with room budget Inr show ?thesis
            unfolding JObj
            by (simp add: executeStepsLoop_unsupported[OF room budget Inr is_other] loop_body_def)
        qed
      qed
    qed
  qed
qed

lemma executeSteps_too_deep:
  "MAX_CALL_DEPTH < callDepth \<Longrightarrow>
   executeSteps catalog defs steps scope st callDepth = (Some CallDepthExceeded, st)"
  by (subst executeSteps.simps) simp

lemma executeSteps_loop:
  "callDepth \<le> MAX_CALL_DEPTH \<Longrightarrow>
   executeSteps catalog defs steps scope st callDepth =
     executeStepsLoop catalog defs steps scope st callDepth"
  by (subst executeSteps.simps) simp

lemma outcome_case_id:
  "(case r of (Some e, st2) \<Rightarrow> (Some e, st2) | (None, st2) \<Rightarrow> (None, st2)) = (r :: Outcome)"
  by (cases r) (simp split: option.splits)

lemma executeSteps_full:
  "MAX_BLOCKS \<le> length (out st) \<Longrightarrow> callDepth \<le> MAX_CALL_DEPTH \<Longrightarrow>
   executeSteps catalog defs steps scope st callDepth = (None, st)"
  by (subst executeSteps.simps) (simp add: executeStepsLoop_full)

lemma executeSteps_None_depth:
  "executeSteps catalog defs steps scope st callDepth = (None, st') \<Longrightarrow> callDepth \<le> MAX_CALL_DEPTH"
  by (subst (asm) executeSteps.simps) (simp split: if_splits)

lemma executeSteps_Nil:
  "callDepth \<le> MAX_CALL_DEPTH \<Longrightarrow> executeSteps catalog defs [] scope st callDepth = (None, st)"
  by (simp add: executeSteps_loop executeStepsLoop_Nil)

text \<open>The whole of \<^verbatim>\<open>executeSteps\<close>: the test of the depth, and for each step the test of
  the output, the count, the test of the count and the step itself.\<close>

lemma executeSteps_unfold:
  "executeSteps catalog defs steps scope st callDepth =
     (if MAX_CALL_DEPTH < callDepth then (Some CallDepthExceeded, st)
      else
        (case steps of
           [] \<Rightarrow> (None, st)
         | rawStep # rest \<Rightarrow>
             if MAX_BLOCKS \<le> length (out st) then (None, st)
             else if MAX_EXECUTED_STEPS < executedSteps st + 1
               then (Some ExecutedStepsExceeded, st\<lparr>executedSteps := executedSteps st + 1\<rparr>)
             else
               (case loop_body catalog defs rawStep scope
                       (st\<lparr>executedSteps := executedSteps st + 1\<rparr>) callDepth of
                  (Some e, st2) \<Rightarrow> (Some e, st2)
                | (None, st2) \<Rightarrow> executeSteps catalog defs rest scope st2 callDepth)))"
proof (cases "MAX_CALL_DEPTH < callDepth")
  case True
  then show ?thesis by (simp add: executeSteps_too_deep)
next
  case False
  then have d: "callDepth \<le> MAX_CALL_DEPTH" by simp
  show ?thesis
  proof (cases steps)
    case Nil
    with d False show ?thesis by (simp add: executeSteps_Nil)
  next
    case (Cons rawStep rest)
    show ?thesis
      unfolding Cons executeSteps_loop[OF d] executeStepsLoop_Cons[of _ _ rawStep rest]
      using False by simp
  qed
qed

subsection \<open>The \<^verbatim>\<open>for\<close> step\<close>

lemma spec_for_values_up: "0 < s \<Longrightarrow> a \<le> b \<Longrightarrow> spec_for_values a b s = a # spec_for_values (a + s) b s"
  by (subst spec_for_values.simps) simp

lemma spec_for_values_down: "s < 0 \<Longrightarrow> b \<le> a \<Longrightarrow> spec_for_values a b s = a # spec_for_values (a + s) b s"
  by (subst spec_for_values.simps) simp

lemma spec_for_values_up_stop: "0 < s \<Longrightarrow> b < a \<Longrightarrow> spec_for_values a b s = []"
  by (subst spec_for_values.simps) simp

lemma spec_for_values_down_stop: "s < 0 \<Longrightarrow> a < b \<Longrightarrow> spec_for_values a b s = []"
  by (subst spec_for_values.simps) simp

lemma spec_for_values_zero: "spec_for_values a b 0 = []"
  by (subst spec_for_values.simps) simp

lemma spec_for_values_up_set:
  "0 < s \<Longrightarrow> set (spec_for_values a b s) = {i. a \<le> i \<and> i \<le> b \<and> s dvd (i - a)}"
proof (induction a b s rule: spec_for_values.induct)
  case (1 a b s)
  show ?case
  proof (cases "a \<le> b")
    case False
    with 1(3) show ?thesis by (auto simp: spec_for_values_up_stop)
  next
    case True
    have ih: "set (spec_for_values (a + s) b s) = {i. a + s \<le> i \<and> i \<le> b \<and> s dvd (i - (a + s))}"
      using 1(1) 1(3) True by simp
    have "{i. a \<le> i \<and> i \<le> b \<and> s dvd (i - a)} =
        insert a {i. a + s \<le> i \<and> i \<le> b \<and> s dvd (i - (a + s))}"
    proof (intro set_eqI iffI)
      fix i assume "i \<in> {i. a \<le> i \<and> i \<le> b \<and> s dvd (i - a)}"
      then have i: "a \<le> i" "i \<le> b" "s dvd (i - a)" by auto
      show "i \<in> insert a {i. a + s \<le> i \<and> i \<le> b \<and> s dvd (i - (a + s))}"
      proof (cases "i = a")
        case True then show ?thesis by simp
      next
        case False
        with i(1) have "0 < i - a" by simp
        with i(3) 1(3) have "s \<le> i - a" by (simp add: zdvd_imp_le)
        moreover have e: "i - (a + s) = (i - a) - s" by simp
        have "s dvd (i - a) - s" by (rule dvd_diff[OF i(3) dvd_refl])
        then have "s dvd (i - (a + s))" by (simp only: e)
        ultimately show ?thesis using i(2) by simp
      qed
    next
      fix i assume "i \<in> insert a {i. a + s \<le> i \<and> i \<le> b \<and> s dvd (i - (a + s))}"
      then consider "i = a" | "a + s \<le> i" "i \<le> b" "s dvd (i - (a + s))" by auto
      then show "i \<in> {i. a \<le> i \<and> i \<le> b \<and> s dvd (i - a)}"
      proof cases
        case 1 with True show ?thesis by simp
      next
        case 2
        have "i - a = (i - (a + s)) + s" by simp
        with 2(3) have "s dvd (i - a)" by (metis dvd_add_triv_right_iff)
        with 2 \<open>0 < s\<close> show ?thesis by simp
      qed
    qed
    with ih True 1(3) show ?thesis by (simp add: spec_for_values_up)
  qed
qed

lemma spec_for_values_up_sorted: "0 < s \<Longrightarrow> sorted_wrt (<) (spec_for_values a b s)"
proof (induction a b s rule: spec_for_values.induct)
  case (1 a b s)
  show ?case
  proof (cases "a \<le> b")
    case False
    with 1(3) show ?thesis by (simp add: spec_for_values_up_stop)
  next
    case True
    have "sorted_wrt (<) (spec_for_values (a + s) b s)" using 1(1) 1(3) True by simp
    moreover have "\<forall>i \<in> set (spec_for_values (a + s) b s). a < i"
      using 1(3) by (auto simp: spec_for_values_up_set)
    ultimately show ?thesis using True 1(3) by (simp add: spec_for_values_up)
  qed
qed

lemma spec_for_values_down_set:
  "s < 0 \<Longrightarrow> set (spec_for_values a b s) = {i. b \<le> i \<and> i \<le> a \<and> s dvd (a - i)}"
proof (induction a b s rule: spec_for_values.induct)
  case (1 a b s)
  show ?case
  proof (cases "b \<le> a")
    case False
    with 1(3) show ?thesis by (auto simp: spec_for_values_down_stop)
  next
    case True
    have ns: "\<not> (0 < s \<and> a \<le> b)" using 1(3) by simp
    have ih: "set (spec_for_values (a + s) b s) = {i. b \<le> i \<and> i \<le> a + s \<and> s dvd (a + s - i)}"
      using 1(2)[OF ns] 1(3) True by simp
    have "{i. b \<le> i \<and> i \<le> a \<and> s dvd (a - i)} =
        insert a {i. b \<le> i \<and> i \<le> a + s \<and> s dvd (a + s - i)}"
    proof (intro set_eqI iffI)
      fix i assume "i \<in> {i. b \<le> i \<and> i \<le> a \<and> s dvd (a - i)}"
      then have i: "b \<le> i" "i \<le> a" "s dvd (a - i)" by auto
      show "i \<in> insert a {i. b \<le> i \<and> i \<le> a + s \<and> s dvd (a + s - i)}"
      proof (cases "i = a")
        case True then show ?thesis by simp
      next
        case False
        with i(2) have "0 < a - i" by simp
        moreover from i(3) have "- s dvd (a - i)" by simp
        ultimately have "- s \<le> a - i" by (simp add: zdvd_imp_le)
        moreover have e: "a + s - i = (a - i) + s" by simp
        have "s dvd (a - i) + s" by (rule dvd_add[OF i(3) dvd_refl])
        then have "s dvd (a + s - i)" by (simp only: e)
        ultimately show ?thesis using i(1) by simp
      qed
    next
      fix i assume "i \<in> insert a {i. b \<le> i \<and> i \<le> a + s \<and> s dvd (a + s - i)}"
      then consider "i = a" | "b \<le> i" "i \<le> a + s" "s dvd (a + s - i)" by auto
      then show "i \<in> {i. b \<le> i \<and> i \<le> a \<and> s dvd (a - i)}"
      proof cases
        case 1 with True show ?thesis by simp
      next
        case 2
        have "a + s - i = (a - i) + s" by simp
        with 2(3) have "s dvd (a - i)" by (metis dvd_add_triv_right_iff)
        with 2 \<open>s < 0\<close> show ?thesis by simp
      qed
    qed
    with ih True 1(3) show ?thesis by (simp add: spec_for_values_down)
  qed
qed

lemma spec_for_values_down_sorted: "s < 0 \<Longrightarrow> sorted_wrt (>) (spec_for_values a b s)"
proof (induction a b s rule: spec_for_values.induct)
  case (1 a b s)
  show ?case
  proof (cases "b \<le> a")
    case False
    with 1(3) show ?thesis by (simp add: spec_for_values_down_stop)
  next
    case True
    have ns: "\<not> (0 < s \<and> a \<le> b)" using 1(3) by simp
    have "sorted_wrt (>) (spec_for_values (a + s) b s)" using 1(2)[OF ns] 1(3) True by simp
    moreover have "\<forall>i \<in> set (spec_for_values (a + s) b s). i < a"
      using 1(3) by (auto simp: spec_for_values_down_set)
    ultimately show ?thesis using True 1(3) by (simp add: spec_for_values_down)
  qed
qed

lemma spec_run_iterations_full:
  "MAX_BLOCKS \<le> length (out st) \<Longrightarrow> callDepth + 1 \<le> MAX_CALL_DEPTH \<Longrightarrow>
   spec_run_iterations catalog defs body scope varName vals st callDepth = (None, st)"
  by (induction vals) (simp_all add: executeSteps_full)


lemma forLoopUp_values:
  "0 < stride \<Longrightarrow> - (2 ^ 53) \<le> i \<Longrightarrow> to + stride \<le> 2 ^ 53 \<Longrightarrow>
   forLoopUp catalog defs body scope varName i to stride st callDepth =
     spec_run_iterations catalog defs body scope varName (spec_for_values i to stride) st callDepth"
proof (induction i to stride arbitrary: st rule: spec_for_values.induct)
  case (1 a b s)
  show ?case
  proof (cases "a \<le> b")
    case False
    with 1(3) show ?thesis by (simp add: forLoopUp_stop spec_for_values_up_stop)
  next
    case True
    have ih: "forLoopUp catalog defs body scope varName (a + s) b s st1 callDepth =
        spec_run_iterations catalog defs body scope varName (spec_for_values (a + s) b s) st1 callDepth"
      for st1
      using 1(1)[of st1] 1(3,4,5) True by simp
    obtain res st1 where r:
      "executeSteps catalog defs body (scope(varName \<mapsto> SNum a)) st (callDepth + 1) = (res, st1)"
      by (cases "executeSteps catalog defs body (scope(varName \<mapsto> SNum a)) st (callDepth + 1)")
    have up: "0 < s \<and> a \<le> b" using 1(3) True by simp
    have exact: "\<bar>a + s\<bar> \<le> 2 ^ 53" using 1(3,4,5) True by simp
    show ?thesis
    proof (cases res)
      case (Some e)
      with r show ?thesis
        unfolding forLoopUp_exact[OF up exact] spec_for_values_up[OF 1(3) True]
        by simp
    next
      case None
      from r None have d: "callDepth + 1 \<le> MAX_CALL_DEPTH"
        using executeSteps_None_depth by blast
      show ?thesis
        unfolding forLoopUp_exact[OF up exact] spec_for_values_up[OF 1(3) True]
        using r None ih[of st1] spec_run_iterations_full[OF _ d, of st1]
        by simp
    qed
  qed
qed

lemma forLoopDown_values:
  "stride < 0 \<Longrightarrow> i \<le> 2 ^ 53 \<Longrightarrow> - (2 ^ 53) \<le> to + stride \<Longrightarrow>
   forLoopDown catalog defs body scope varName i to stride st callDepth =
     spec_run_iterations catalog defs body scope varName (spec_for_values i to stride) st callDepth"
proof (induction i to stride arbitrary: st rule: spec_for_values.induct)
  case (1 a b s)
  show ?case
  proof (cases "b \<le> a")
    case False
    with 1(3) show ?thesis by (simp add: forLoopDown_stop spec_for_values_down_stop)
  next
    case True
    have ih: "forLoopDown catalog defs body scope varName (a + s) b s st1 callDepth =
        spec_run_iterations catalog defs body scope varName (spec_for_values (a + s) b s) st1 callDepth"
      for st1
      using 1(2)[of st1] 1(3,4,5) True by simp
    obtain res st1 where r:
      "executeSteps catalog defs body (scope(varName \<mapsto> SNum a)) st (callDepth + 1) = (res, st1)"
      by (cases "executeSteps catalog defs body (scope(varName \<mapsto> SNum a)) st (callDepth + 1)")
    have down: "s < 0 \<and> b \<le> a" using 1(3) True by simp
    have exact: "\<bar>a + s\<bar> \<le> 2 ^ 53" using 1(3,4,5) True by simp
    show ?thesis
    proof (cases res)
      case (Some e)
      with r show ?thesis
        unfolding forLoopDown_exact[OF down exact] spec_for_values_down[OF 1(3) True]
        by simp
    next
      case None
      from r None have d: "callDepth + 1 \<le> MAX_CALL_DEPTH"
        using executeSteps_None_depth by blast
      show ?thesis
        unfolding forLoopDown_exact[OF down exact] spec_for_values_down[OF 1(3) True]
        using r None ih[of st1] spec_run_iterations_full[OF _ d, of st1]
        by simp
    qed
  qed
qed

lemma for_step_reads_header:
  "for_step_reads step scope v a b s \<Longrightarrow>
   forHeader step scope =
     (if s = 0 then Inl ForStepZero
      else (case map_of step ''steps'' of
              Some (JArr body) \<Rightarrow> Inr (v, a, b, s, body)
            | _ \<Rightarrow> Inl ForMissingSteps))"
  by (auto simp: for_step_reads_def forHeader_def split: sum.splits option.splits json.splits)

lemma executeForStep_iterations:
  assumes "for_step_reads step scope v a b s" and "s \<noteq> 0"
    and "map_of step ''steps'' = Some (JArr body)" and "loop_exact a b s"
  shows "executeForStep catalog defs step scope st callDepth =
     spec_run_iterations catalog defs body scope v (spec_for_values a b s) st callDepth"
proof -
  have "forHeader step scope = Inr (v, a, b, s, body)"
    using for_step_reads_header[OF assms(1)] assms(2,3) by simp
  then show ?thesis
    using assms(2,4)
    by (cases "0 < s")
      (simp_all add: executeForStep_header forLoopUp_values forLoopDown_values loop_exact_def)
qed

lemma executeForStep_zero:
  assumes "for_step_reads step scope v a b 0"
  shows "executeForStep catalog defs step scope st callDepth = (Some ForStepZero, st)"
  using for_step_reads_header[OF assms] by (simp add: executeForStep_header)

lemma place_i_block:
  "normalizeCompactBlock DEFAULT_ALLOWED_BLOCK_TYPES
     [(''op'', JStr ''place''), (''x'', JStr ''i''), (''y'', JNum 0), (''z'', JNum 0)]
     (scope(''i'' \<mapsto> SNum n)) = Inr (stone_at n)"
proof -
  have t: "trim ''i'' = ''i''" by (simp add: trim_def is_space_def)
  have e: "evaluateIntegerExpression ''i'' (scope(''i'' \<mapsto> SNum n)) field = Inr n" for field
    by (simp add: eval_expr_simps)
  have b: "normalized_identifier DEFAULT_BLOCK_TYPE = ''minecraft:stone''"
    by (simp add: normalized_identifier_def string_simps DEFAULT_BLOCK_TYPE_def)
  show ?thesis
    by (simp add: normalizeCompactBlock_def evalIntExpr_def Number_of_small t e stone_at_def
        normalizeBlockType_def resolveScopedValue_def b DEFAULT_ALLOWED_BLOCK_TYPES_def)
qed

lemma place_i_step:
  assumes "length (out st) < MAX_BLOCKS" and "executedSteps st < MAX_EXECUTED_STEPS"
    and "callDepth \<le> MAX_CALL_DEPTH"
  shows "executeSteps DEFAULT_ALLOWED_BLOCK_TYPES defs [place_i] (scope(''i'' \<mapsto> SNum n)) st callDepth =
     (None, st\<lparr>executedSteps := executedSteps st + 1, out := out st @ [stone_at n]\<rparr>)"
proof -
  have room: "\<not> MAX_BLOCKS \<le> length (out st)" using assms(1) by simp
  have budget: "\<not> MAX_EXECUTED_STEPS < executedSteps st + 1" using assms(2) by simp
  have op: "String_or_empty (map_of [(''op'', JStr ''place''), (''x'', JStr ''i''), (''y'', JNum 0),
      (''z'', JNum 0)] ''op'') = Inr ''place''"
    by (simp add: String_or_empty_def)
  have low: "toLowerCase ''place'' = ''place'' \<or> toLowerCase ''place'' = ''block''"
    by (simp add: string_simps)
  have depth: "\<not> MAX_CALL_DEPTH < callDepth" using assms(3) by simp
  show ?thesis
    unfolding place_i_def
    by (subst executeSteps.simps)
      (simp add: depth executeStepsLoop_place[OF room budget op low] place_i_block
        executeStepsLoop_Nil)
qed

lemma row_values: "spec_for_values 0 4 1 = [0, 1, 2, 3, 4]"
  by (simp add: spec_for_values_up spec_for_values_up_stop)

lemma row_reads:
  "for_step_reads [(''op'', JStr ''for''), (''var'', JStr ''i''),
     (''from'', JNum 0), (''to'', JNum 4), (''steps'', JArr [place_i])] Map.empty ''i'' 0 4 1"
  by (simp add: for_step_reads_def String_or_empty_def trim_def is_space_def evalIntExpr_def
      Number_of_small)

lemma row_steps:
  "executeSteps DEFAULT_ALLOWED_BLOCK_TYPES Map.empty
     [JObj [(''op'', JStr ''for''), (''var'', JStr ''i''),
        (''from'', JNum 0), (''to'', JNum 4), (''steps'', JArr [place_i])]] Map.empty
     \<lparr>out = [], executedSteps = 0, calls = 0\<rparr> 0 =
     (None, \<lparr>out = [stone_at 0, stone_at 1, stone_at 2, stone_at 3, stone_at 4],
        executedSteps = 6, calls = 0\<rparr>)"
proof -
  let ?step = "[(''op'', JStr ''for''), (''var'', JStr ''i''),
     (''from'', JNum 0), (''to'', JNum 4), (''steps'', JArr [place_i])]"
  let ?st = "\<lparr>out = [], executedSteps = Suc 0, calls = 0\<rparr>"
  have x: "loop_exact 0 4 1" by (simp add: loop_exact_def)
  have f: "executeForStep DEFAULT_ALLOWED_BLOCK_TYPES Map.empty ?step Map.empty ?st 0 =
      (None, \<lparr>out = [stone_at 0, stone_at 1, stone_at 2, stone_at 3, stone_at 4],
         executedSteps = 6, calls = 0\<rparr>)"
    by (simp add: executeForStep_iterations[OF row_reads _ _ x] row_values place_i_step limit_defs)
  have op: "String_or_empty (map_of ?step ''op'') = Inr ''for''"
    by (simp add: String_or_empty_def)
  have low: "toLowerCase ''for'' = ''for''" by (simp add: string_simps)
  show ?thesis
    by (subst executeSteps.simps)
      (simp add: executeStepsLoop_for[OF _ _ op low] f executeStepsLoop_Nil limit_defs)
qed

lemma row_blocks:
  "parseBlocksFromResponse DEFAULT_ALLOWED_BLOCK_TYPES row_program =
     Inr [stone_at 0, stone_at 1, stone_at 2, stone_at 3, stone_at 4]"
  by (simp add: parseBlocksFromResponse_def row_program_def isArray_def expandCompactProgram_def
      row_steps MAX_BLOCKS_def)

subsection \<open>A loop over large numbers\<close>

lemma Number_of_2_53_2: "Number_of 9007199254740994 = Some 9007199254740994"
  by (simp add: number_simps)

lemma large_reads:
  "for_step_reads (large_for body) Map.empty ''i'' 9007199254740992 9007199254740994 1"
  by (simp add: for_step_reads_def large_for_def String_or_empty_def trim_def is_space_def
      evalIntExpr_def Number_of_small Number_of_2_53_2)

lemma large_values:
  "spec_for_values 9007199254740992 9007199254740994 1 =
     [9007199254740992, 9007199254740993, 9007199254740994]"
  by (simp add: spec_for_values_up spec_for_values_up_stop)

lemma large_header:
  "forHeader (large_for body) Map.empty =
     Inr (''i'', 9007199254740992, 9007199254740994, 1, body)"
  using for_step_reads_header[OF large_reads, of body] by (simp add: large_for_def)

text \<open>With an empty body the loop never ends: the sum of \<open>2^53\<close> and 1 rounds to \<open>2^53\<close>.\<close>

lemma large_for_empty:
  "length (out st) < MAX_BLOCKS \<Longrightarrow>
   executeForStep catalog defs (large_for []) Map.empty st 0 = (Some NeverReturns, st)"
  by (simp add: executeForStep_header large_header forLoopUp_iterate executeSteps_Nil
      Number_int_2_53_1 limit_defs)

text \<open>With two places left in the output the loop puts the block at \<open>2^53\<close> there twice.\<close>

lemma large_for_place:
  "executeForStep DEFAULT_ALLOWED_BLOCK_TYPES Map.empty (large_for [place_i]) Map.empty
     \<lparr>out = replicate 9998 (stone_at 0), executedSteps = 0, calls = 0\<rparr> 0 =
     (None, \<lparr>out = replicate 9998 (stone_at 0) @
               [stone_at 9007199254740992, stone_at 9007199254740992],
        executedSteps = 2, calls = 0\<rparr>)"
  by (simp add: executeForStep_header large_header forLoopUp_iterate place_i_step
      Number_int_2_53_1 limit_defs)

lemma large_for_spec:
  "spec_run_iterations DEFAULT_ALLOWED_BLOCK_TYPES Map.empty [place_i] Map.empty ''i''
     (spec_for_values 9007199254740992 9007199254740994 1)
     \<lparr>out = replicate 9998 (stone_at 0), executedSteps = 0, calls = 0\<rparr> 0 =
     (None, \<lparr>out = replicate 9998 (stone_at 0) @
               [stone_at 9007199254740992, stone_at 9007199254740993],
        executedSteps = 2, calls = 0\<rparr>)"
  by (simp add: large_values place_i_step executeSteps_full limit_defs)

subsection \<open>A \<^verbatim>\<open>for\<close> step is a list of iterations\<close>

lemma ends_as_refl: "ends_as r r"
  by (simp add: ends_as_def)

lemma spec_run_iterations_Cons_error:
  "executeSteps catalog defs body (scope(v \<mapsto> SNum i)) st (callDepth + 1) = (Some e, st1) \<Longrightarrow>
   spec_run_iterations catalog defs body scope v [i] st callDepth = (Some e, st1)"
  by simp

lemma spec_run_iterations_one:
  "executeSteps catalog defs body (scope(v \<mapsto> SNum i)) st (callDepth + 1) = (None, st1) \<Longrightarrow>
   spec_run_iterations catalog defs body scope v [i] st callDepth = (None, st1)"
  by simp

lemma spec_run_iterations_next:
  "executeSteps catalog defs body (scope(v \<mapsto> SNum i)) st (callDepth + 1) = (None, st1) \<Longrightarrow>
   spec_run_iterations catalog defs body scope v (i # vals) st callDepth =
     spec_run_iterations catalog defs body scope v vals st1 callDepth"
  by simp

lemma lex_induct:
  assumes "\<And>x. (\<And>y. (y, x) \<in> less_than <*lex*> less_than \<Longrightarrow> P y) \<Longrightarrow> P x"
  shows "P (a :: nat \<times> nat)"
  by (rule wf_induct_rule[OF wf_lex_prod[OF wf_less_than wf_less_than]]) (rule assms)

lemma forLoopUp_runs:
  "\<exists>vals. ends_as (forLoopUp catalog defs body scope v i to stride st callDepth)
     (spec_run_iterations catalog defs body scope v vals st callDepth)"
proof (induct "(nat (to - i + 1), MAX_EXECUTED_STEPS + 1 - executedSteps st)" arbitrary: i st
    rule: lex_induct)
  case less: 1
  let ?run = "\<lambda>vals st. spec_run_iterations catalog defs body scope v vals st callDepth"
  let ?loop = "\<lambda>i st. forLoopUp catalog defs body scope v i to stride st callDepth"
  show ?case
  proof (cases "0 < stride \<and> i \<le> to")
    case False
    then have "?loop i st = ?run [] st" by (simp add: forLoopUp_stop)
    then show ?thesis using ends_as_refl by metis
  next
    case True
    obtain res st1 where r:
      "executeSteps catalog defs body (scope(v \<mapsto> SNum i)) st (callDepth + 1) = (res, st1)"
      by (cases "executeSteps catalog defs body (scope(v \<mapsto> SNum i)) st (callDepth + 1)")
    show ?thesis
    proof (cases res)
      case (Some e)
      with r have "?loop i st = ?run [i] st"
        by (simp add: forLoopUp_iterate[OF True])
      then show ?thesis using ends_as_refl by metis
    next
      case None
      note one = spec_run_iterations_one[OF r[unfolded None]]
      note more = spec_run_iterations_next[OF r[unfolded None]]
      show ?thesis
      proof (cases "MAX_BLOCKS \<le> length (out st1)")
        case True
        with r None have "?loop i st = ?run [i] st"
          by (simp add: forLoopUp_iterate[OF \<open>0 < stride \<and> i \<le> to\<close>])
        then show ?thesis using ends_as_refl by metis
      next
        case room: False
        show ?thesis
        proof (cases "Number_int (i + stride)")
          case None
          with r \<open>res = None\<close> room have "?loop i st = ?run [i] st"
            by (simp add: forLoopUp_iterate[OF True])
          then show ?thesis using ends_as_refl by metis
        next
          case (Some n)
          consider (step) "i < n"
            | (again) "\<not> i < n" "n = i" "executedSteps st < executedSteps st1"
                "executedSteps st1 \<le> MAX_EXECUTED_STEPS"
            | (stall) "\<not> i < n" "\<not> (n = i \<and> executedSteps st < executedSteps st1 \<and>
                executedSteps st1 \<le> MAX_EXECUTED_STEPS)"
            by blast
          then show ?thesis
          proof cases
            case step
            have l: "?loop i st = ?loop n st1"
              using r None room Some step by (simp add: forLoopUp_iterate[OF True])
            have "((nat (to - n + 1), MAX_EXECUTED_STEPS + 1 - executedSteps st1),
                (nat (to - i + 1), MAX_EXECUTED_STEPS + 1 - executedSteps st)) \<in>
                less_than <*lex*> less_than"
              using step True by simp
            from less[OF this] obtain vals where "ends_as (?loop n st1) (?run vals st1)"
              by blast
            then have "ends_as (?loop i st) (?run (i # vals) st)"
              unfolding l more .
            then show ?thesis by blast
          next
            case again
            have l: "?loop i st = ?loop n st1"
              using r None room Some again by (simp add: forLoopUp_iterate[OF True])
            have "((nat (to - n + 1), MAX_EXECUTED_STEPS + 1 - executedSteps st1),
                (nat (to - i + 1), MAX_EXECUTED_STEPS + 1 - executedSteps st)) \<in>
                less_than <*lex*> less_than"
              using again by simp
            from less[OF this] obtain vals where "ends_as (?loop n st1) (?run vals st1)"
              by blast
            then have "ends_as (?loop i st) (?run (i # vals) st)"
              unfolding l more .
            then show ?thesis by blast
          next
            case stall
            have "?loop i st = (Some NeverReturns, st1)"
              using r None room Some stall by (auto simp: forLoopUp_iterate[OF True])
            then have "ends_as (?loop i st) (?run [i] st)"
              unfolding one by (simp add: ends_as_def)
            then show ?thesis by blast
          qed
        qed
      qed
    qed
  qed
qed

lemma forLoopDown_runs:
  "\<exists>vals. ends_as (forLoopDown catalog defs body scope v i to stride st callDepth)
     (spec_run_iterations catalog defs body scope v vals st callDepth)"
proof (induct "(nat (i - to + 1), MAX_EXECUTED_STEPS + 1 - executedSteps st)" arbitrary: i st
    rule: lex_induct)
  case less: 1
  let ?run = "\<lambda>vals st. spec_run_iterations catalog defs body scope v vals st callDepth"
  let ?loop = "\<lambda>i st. forLoopDown catalog defs body scope v i to stride st callDepth"
  show ?case
  proof (cases "stride < 0 \<and> to \<le> i")
    case False
    then have "?loop i st = ?run [] st" by (simp add: forLoopDown_stop)
    then show ?thesis using ends_as_refl by metis
  next
    case True
    obtain res st1 where r:
      "executeSteps catalog defs body (scope(v \<mapsto> SNum i)) st (callDepth + 1) = (res, st1)"
      by (cases "executeSteps catalog defs body (scope(v \<mapsto> SNum i)) st (callDepth + 1)")
    show ?thesis
    proof (cases res)
      case (Some e)
      with r have "?loop i st = ?run [i] st"
        by (simp add: forLoopDown_iterate[OF True])
      then show ?thesis using ends_as_refl by metis
    next
      case None
      note one = spec_run_iterations_one[OF r[unfolded None]]
      note more = spec_run_iterations_next[OF r[unfolded None]]
      show ?thesis
      proof (cases "MAX_BLOCKS \<le> length (out st1)")
        case True
        with r None have "?loop i st = ?run [i] st"
          by (simp add: forLoopDown_iterate[OF \<open>stride < 0 \<and> to \<le> i\<close>])
        then show ?thesis using ends_as_refl by metis
      next
        case room: False
        show ?thesis
        proof (cases "Number_int (i + stride)")
          case None
          with r \<open>res = None\<close> room have "?loop i st = ?run [i] st"
            by (simp add: forLoopDown_iterate[OF True])
          then show ?thesis using ends_as_refl by metis
        next
          case (Some n)
          consider (step) "n < i"
            | (again) "\<not> n < i" "n = i" "executedSteps st < executedSteps st1"
                "executedSteps st1 \<le> MAX_EXECUTED_STEPS"
            | (stall) "\<not> n < i" "\<not> (n = i \<and> executedSteps st < executedSteps st1 \<and>
                executedSteps st1 \<le> MAX_EXECUTED_STEPS)"
            by blast
          then show ?thesis
          proof cases
            case step
            have l: "?loop i st = ?loop n st1"
              using r None room Some step by (simp add: forLoopDown_iterate[OF True])
            have "((nat (n - to + 1), MAX_EXECUTED_STEPS + 1 - executedSteps st1),
                (nat (i - to + 1), MAX_EXECUTED_STEPS + 1 - executedSteps st)) \<in>
                less_than <*lex*> less_than"
              using step True by simp
            from less[OF this] obtain vals where "ends_as (?loop n st1) (?run vals st1)"
              by blast
            then have "ends_as (?loop i st) (?run (i # vals) st)"
              unfolding l more .
            then show ?thesis by blast
          next
            case again
            have l: "?loop i st = ?loop n st1"
              using r None room Some again by (simp add: forLoopDown_iterate[OF True])
            have "((nat (n - to + 1), MAX_EXECUTED_STEPS + 1 - executedSteps st1),
                (nat (i - to + 1), MAX_EXECUTED_STEPS + 1 - executedSteps st)) \<in>
                less_than <*lex*> less_than"
              using again by simp
            from less[OF this] obtain vals where "ends_as (?loop n st1) (?run vals st1)"
              by blast
            then have "ends_as (?loop i st) (?run (i # vals) st)"
              unfolding l more .
            then show ?thesis by blast
          next
            case stall
            have "?loop i st = (Some NeverReturns, st1)"
              using r None room Some stall by (auto simp: forLoopDown_iterate[OF True])
            then have "ends_as (?loop i st) (?run [i] st)"
              unfolding one by (simp add: ends_as_def)
            then show ?thesis by blast
          qed
        qed
      qed
    qed
  qed
qed

text \<open>A \<^verbatim>\<open>for\<close> step throws the error of its header and leaves the state as it was, or
  it executes its body for a list of values, one level deeper, in the state that the
  execution before has left: the step itself changes nothing.\<close>

lemma executeForStep_runs:
  "(forHeader step scope = Inl e \<longrightarrow>
      executeForStep catalog defs step scope st callDepth = (Some e, st)) \<and>
   (forHeader step scope = Inr (v, a, b, s, body) \<longrightarrow>
      (\<exists>vals. ends_as (executeForStep catalog defs step scope st callDepth)
         (spec_run_iterations catalog defs body scope v vals st callDepth)))"
  using forLoopUp_runs[of catalog defs body scope v a b s st callDepth]
    forLoopDown_runs[of catalog defs body scope v a b s st callDepth]
  by (simp add: executeForStep_header)

lemma large_for_empty_spec:
  "spec_run_iterations DEFAULT_ALLOWED_BLOCK_TYPES Map.empty [] Map.empty ''i''
     (spec_for_values 9007199254740992 9007199254740994 1)
     \<lparr>out = [], executedSteps = 0, calls = 0\<rparr> 0 =
     (None, \<lparr>out = [], executedSteps = 0, calls = 0\<rparr>)"
  by (simp add: large_values executeSteps_Nil limit_defs)

subsection \<open>Claim C1\<close>

text \<open>
  C1 as the specification states it fails on large numbers. The step
  \<^verbatim>\<open>{"op":"for","var":"i","from":9007199254740992,"to":9007199254740994,"steps":[...]}\<close>
  reads the bounds \<open>2^53\<close> and \<open>2^53 + 2\<close> and the stride 1, and the values of the
  specification are \<open>2^53\<close>, \<open>2^53 + 1\<close>, \<open>2^53 + 2\<close>. In the source the sum of \<open>2^53\<close> and
  1 is \<open>2^53\<close> again, and the body is executed with this value every time. With two
  places left in the output, the step puts the block at \<open>2^53\<close> there twice, where the
  iterations of the specification put the blocks at \<open>2^53\<close> and at \<open>2^53 + 1\<close>. With an
  empty body the step never returns, where the iterations of the specification return
  at once.
\<close>

theorem C1_counterexample:
  "for_step_reads (large_for [place_i]) Map.empty ''i'' 9007199254740992 9007199254740994 1 \<and>
   executeForStep DEFAULT_ALLOWED_BLOCK_TYPES Map.empty (large_for [place_i]) Map.empty
     \<lparr>out = replicate 9998 (stone_at 0), executedSteps = 0, calls = 0\<rparr> 0 =
     (None, \<lparr>out = replicate 9998 (stone_at 0) @
               [stone_at 9007199254740992, stone_at 9007199254740992],
        executedSteps = 2, calls = 0\<rparr>) \<and>
   spec_run_iterations DEFAULT_ALLOWED_BLOCK_TYPES Map.empty [place_i] Map.empty ''i''
     (spec_for_values 9007199254740992 9007199254740994 1)
     \<lparr>out = replicate 9998 (stone_at 0), executedSteps = 0, calls = 0\<rparr> 0 =
     (None, \<lparr>out = replicate 9998 (stone_at 0) @
               [stone_at 9007199254740992, stone_at 9007199254740993],
        executedSteps = 2, calls = 0\<rparr>) \<and>
   executeForStep DEFAULT_ALLOWED_BLOCK_TYPES Map.empty (large_for []) Map.empty
     \<lparr>out = [], executedSteps = 0, calls = 0\<rparr> 0 =
     (Some NeverReturns, \<lparr>out = [], executedSteps = 0, calls = 0\<rparr>) \<and>
   spec_run_iterations DEFAULT_ALLOWED_BLOCK_TYPES Map.empty [] Map.empty ''i''
     (spec_for_values 9007199254740992 9007199254740994 1)
     \<lparr>out = [], executedSteps = 0, calls = 0\<rparr> 0 =
     (None, \<lparr>out = [], executedSteps = 0, calls = 0\<rparr>)"
  by (simp add: large_reads large_for_place large_for_spec large_for_empty large_for_empty_spec
      MAX_BLOCKS_def)

text \<open>
  C1, amended. A \<^verbatim>\<open>for\<close> step that reads the variable \<open>v\<close>, the bounds \<open>a\<close> and \<open>b\<close> and a
  stride \<open>s\<close> other than 0 in its scope, where the values of the loop and the first sum past
  the bound are integers of magnitude up to \<open>2^53\<close>, does what the specification says: it
  executes its body once for each of the values \<open>a\<close>, \<open>a + s\<close>, ... in order, each time in
  the scope of the step with \<open>v\<close> bound to the value, and stops at the first exception.
  The values are, for \<open>s > 0\<close>, the \<open>i\<close> from \<open>a\<close> to \<open>b\<close> with \<open>i - a\<close> a multiple of \<open>s\<close>
  in ascending order and, for \<open>s < 0\<close>, the \<open>i\<close> from \<open>a\<close> down to \<open>b\<close> with \<open>a - i\<close> a
  multiple of \<open>s\<close> in descending order. With the stride 0 the step throws before any
  iteration and leaves the state as it was. The program of the example gives the blocks
  at \<open>x = 0, 1, 2, 3, 4\<close> in this order.

  The source leaves its loop once the output has reached its cap; the iterations of
  the specification go on, and each of them returns at once with the state as it was
  (\<open>executeSteps_full\<close>), so that nothing distinguishes the two.
\<close>

theorem C1_amended:
  "(for_step_reads step scope v a b s \<and> s \<noteq> 0 \<and> loop_exact a b s \<and>
    map_of step ''steps'' = Some (JArr body) \<longrightarrow>
      executeForStep catalog defs step scope st callDepth =
        spec_run_iterations catalog defs body scope v (spec_for_values a b s) st callDepth) \<and>
   (for_step_reads step scope v a b 0 \<longrightarrow>
      executeForStep catalog defs step scope st callDepth = (Some ForStepZero, st)) \<and>
   (0 < s \<longrightarrow> sorted_wrt (<) (spec_for_values a b s) \<and>
      set (spec_for_values a b s) = {i. a \<le> i \<and> i \<le> b \<and> s dvd (i - a)}) \<and>
   (s < 0 \<longrightarrow> sorted_wrt (>) (spec_for_values a b s) \<and>
      set (spec_for_values a b s) = {i. b \<le> i \<and> i \<le> a \<and> s dvd (a - i)}) \<and>
   parseBlocksFromResponse DEFAULT_ALLOWED_BLOCK_TYPES row_program =
     Inr [stone_at 0, stone_at 1, stone_at 2, stone_at 3, stone_at 4]"
  using executeForStep_iterations[of step scope v a b s body catalog defs st callDepth]
    executeForStep_zero[of step scope v a b catalog defs st callDepth]
    spec_for_values_up_sorted[of s a b] spec_for_values_up_set[of s a b]
    spec_for_values_down_sorted[of s a b] spec_for_values_down_set[of s a b] row_blocks
  by blast

theorem C1_witness:
  "executeForStep DEFAULT_ALLOWED_BLOCK_TYPES Map.empty
     [(''op'', JStr ''for''), (''var'', JStr ''i''), (''from'', JNum 4), (''to'', JNum 0),
      (''step'', JNum (- 2)), (''steps'', JArr [place_i])]
     Map.empty \<lparr>out = [], executedSteps = 0, calls = 0\<rparr> 0 =
     (None, \<lparr>out = [stone_at 4, stone_at 2, stone_at 0], executedSteps = 3, calls = 0\<rparr>) \<and>
   executeForStep DEFAULT_ALLOWED_BLOCK_TYPES Map.empty
     [(''op'', JStr ''for''), (''var'', JStr ''i''), (''from'', JNum 4), (''to'', JNum 0),
      (''step'', JNum 0), (''steps'', JArr [place_i])]
     Map.empty \<lparr>out = [], executedSteps = 0, calls = 0\<rparr> 0 =
     (Some ForStepZero, \<lparr>out = [], executedSteps = 0, calls = 0\<rparr>) \<and>
   loop_exact 4 0 (- 2) \<and>
   spec_for_values 4 0 (- 2) = [4, 2, 0] \<and> sorted_wrt (>) (spec_for_values 4 0 (- 2)) \<and>
   spec_for_values 0 4 1 = [0, 1, 2, 3, 4] \<and> sorted_wrt (<) (spec_for_values 0 4 1)"
proof -
  let ?down = "[(''op'', JStr ''for''), (''var'', JStr ''i''), (''from'', JNum 4), (''to'', JNum 0),
      (''step'', JNum (- 2)), (''steps'', JArr [place_i])]"
  let ?zero = "[(''op'', JStr ''for''), (''var'', JStr ''i''), (''from'', JNum 4), (''to'', JNum 0),
      (''step'', JNum 0), (''steps'', JArr [place_i])]"
  let ?st = "\<lparr>out = [], executedSteps = 0, calls = 0\<rparr>"
  have down: "for_step_reads ?down Map.empty ''i'' 4 0 (- 2)"
    by (simp add: for_step_reads_def String_or_empty_def trim_def is_space_def evalIntExpr_def
        Number_of_small)
  have zero: "for_step_reads ?zero Map.empty ''i'' 4 0 0"
    by (simp add: for_step_reads_def String_or_empty_def trim_def is_space_def evalIntExpr_def
        Number_of_small)
  have exact: "loop_exact 4 0 (- 2)"
    by (simp add: loop_exact_def)
  have vals: "spec_for_values 4 0 (- 2) = [4, 2, 0]"
    by (simp add: spec_for_values_down spec_for_values_down_stop)
  have steps: "map_of ?down ''steps'' = Some (JArr [place_i])" by simp
  from C1_amended[of ?down Map.empty "''i''" 4 0 "- 2" "[place_i]"
      DEFAULT_ALLOWED_BLOCK_TYPES Map.empty ?st 0] down steps exact
  have "executeForStep DEFAULT_ALLOWED_BLOCK_TYPES Map.empty ?down Map.empty ?st 0 =
      spec_run_iterations DEFAULT_ALLOWED_BLOCK_TYPES Map.empty [place_i] Map.empty ''i''
        (spec_for_values 4 0 (- 2)) ?st 0"
    and "sorted_wrt (>) (spec_for_values 4 0 (- 2))"
    by simp_all
  moreover from C1_amended[of ?zero Map.empty "''i''" 4 0 1 "[place_i]"
      DEFAULT_ALLOWED_BLOCK_TYPES Map.empty ?st 0] zero
  have "executeForStep DEFAULT_ALLOWED_BLOCK_TYPES Map.empty ?zero Map.empty ?st 0 =
      (Some ForStepZero, ?st)"
    by simp
  moreover from C1_amended[where a = 0 and b = 4 and s = 1]
  have "sorted_wrt (<) (spec_for_values 0 4 1)"
    by simp
  ultimately show ?thesis
    by (simp add: vals row_values place_i_step limit_defs exact)
qed

subsection \<open>The two counters\<close>

lemma wb_refl: "within_budget st (None, st)"
  by (simp add: within_budget_def)

lemma wb_err: "\<not> budget_error e \<Longrightarrow> within_budget st (Some e, st)"
  by (auto simp: within_budget_def budget_error_def)

lemma wb_trans:
  "within_budget st (None, st1) \<Longrightarrow> within_budget st1 r \<Longrightarrow> within_budget st r"
  by (cases r) (auto simp: within_budget_def)

lemma wb_bind:
  assumes "within_budget st r"
    and "\<And>st'. r = (None, st') \<Longrightarrow> within_budget st' (k st')"
  shows "within_budget st (case r of (Some e, st') \<Rightarrow> (Some e, st') | (None, st') \<Rightarrow> k st')"
proof (cases r)
  case (Pair res st')
  show ?thesis
  proof (cases res)
    case None
    with Pair assms show ?thesis by (auto intro: wb_trans)
  next
    case (Some e)
    with Pair assms(1) show ?thesis by simp
  qed
qed

lemma wb_step:
  "\<not> MAX_EXECUTED_STEPS < executedSteps st + 1 \<Longrightarrow>
   within_budget st (None, st\<lparr>executedSteps := executedSteps st + 1\<rparr>)"
  by (simp add: within_budget_def)

lemma wb_step_then:
  "\<not> MAX_EXECUTED_STEPS < executedSteps st + 1 \<Longrightarrow>
   within_budget (st\<lparr>executedSteps := executedSteps st + 1\<rparr>) r \<Longrightarrow> within_budget st r"
  by (rule wb_trans[OF wb_step])

lemma wb_step_exceeded:
  "MAX_EXECUTED_STEPS < executedSteps st + 1 \<Longrightarrow>
   within_budget st (Some ExecutedStepsExceeded, st\<lparr>executedSteps := executedSteps st + 1\<rparr>)"
  by (auto simp: within_budget_def)

lemma wb_call_then:
  "\<not> MAX_CALLS < calls st + 1 \<Longrightarrow>
   within_budget (st\<lparr>calls := calls st + 1\<rparr>) r \<Longrightarrow> within_budget st r"
  by (cases r) (auto simp: within_budget_def)

lemma wb_call_exceeded:
  "MAX_CALLS < calls st + 1 \<Longrightarrow>
   within_budget st (Some CallsExceeded, st\<lparr>calls := calls st + 1\<rparr>)"
  by (auto simp: within_budget_def)

lemma wb_out_then:
  "within_budget (st\<lparr>out := blocks\<rparr>) r \<Longrightarrow> within_budget st r"
  by (cases r) (auto simp: within_budget_def)

lemma js_String_error:
  "js_String j = Inl e \<Longrightarrow> e = CannotConvertToPrimitive \<or> e = NumberText"
  "js_join js = Inl e \<Longrightarrow> e = CannotConvertToPrimitive \<or> e = NumberText"
  by (induction j and js rule: js_String_js_join.induct)
    (auto simp: Number_toString_def split: sum.splits if_splits option.splits)

lemma String_or_empty_error:
  "String_or_empty v = Inl e \<Longrightarrow> e = CannotConvertToPrimitive \<or> e = NumberText"
  by (auto simp: String_or_empty_def split: option.splits json.splits
      dest: js_String_error simp del: js_String.simps)

lemma beyond_no_budget_error: "beyond e \<Longrightarrow> \<not> budget_error e"
  by (auto simp: beyond_def budget_error_def)

lemma evalIntExpr_error: "evalIntExpr v scope field = Inl e \<Longrightarrow> \<not> budget_error e"
  by (auto simp: evalIntExpr_def Let_def beyond_no_budget_error
      split: option.splits json.splits sum.splits if_splits) (simp_all add: budget_error_def)

lemma resolveScopedValue_error:
  "resolveScopedValue raw scope = Inl e \<Longrightarrow> \<exists>x. e = InheritedMember x"
  by (auto simp: resolveScopedValue_def Let_def split: option.splits json.splits if_splits)

lemma normalizeBlockType_error:
  "normalizeBlockType catalog raw scope = Inl e \<Longrightarrow> \<not> budget_error e"
  by (auto simp: normalizeBlockType_def Let_def budget_error_def
      split: option.splits json.splits sum.splits if_splits
      dest: js_String_error resolveScopedValue_error simp del: js_String.simps)

lemma normalizeCompactBlock_error:
  assumes "normalizeCompactBlock catalog step scope = Inl e"
  shows "\<not> budget_error e"
proof -
  from assms consider
    "evalIntExpr (map_of step ''x'') scope ''place.x'' = Inl e"
    | "evalIntExpr (map_of step ''y'') scope ''place.y'' = Inl e"
    | "evalIntExpr (map_of step ''z'') scope ''place.z'' = Inl e"
    | "normalizeBlockType catalog (map_of step ''blockType'') scope = Inl e"
    by (auto simp: normalizeCompactBlock_def split: sum.splits)
  then show ?thesis
    by cases (auto dest: evalIntExpr_error normalizeBlockType_error)
qed

lemma evalCallArgValue_error: "evalCallArgValue v scope field = Inl e \<Longrightarrow> \<not> budget_error e"
  by (auto simp: evalCallArgValue_def Let_def beyond_no_budget_error
      split: option.splits json.splits sum.splits if_splits) (simp_all add: budget_error_def)

lemma bindParams_error: "bindParams params rawArgs scope name args = Inl e \<Longrightarrow> \<not> budget_error e"
proof (induction params arbitrary: args)
  case Nil
  then show ?case by simp
next
  case (Cons param rest)
  show ?case
  proof (cases "String_or_empty (Some param)")
    case (Inl e')
    with Cons.prems have "e = e'" by simp
    with String_or_empty_error[OF Inl] show ?thesis by (auto simp: budget_error_def)
  next
    case (Inr s)
    show ?thesis
    proof (cases "trim s = []")
      case True
      with Cons.prems Inr have "bindParams rest rawArgs scope name args = Inl e" by simp
      then show ?thesis by (rule Cons.IH)
    next
      case ne: False
      show ?thesis
      proof (cases "map_of rawArgs (trim s) = None")
        case True
        with Cons.prems Inr ne show ?thesis
          by (auto simp: budget_error_def Let_def split: if_splits)
      next
        case bound: False
        show ?thesis
        proof (cases "evalCallArgValue (map_of rawArgs (trim s)) scope (call_field name (trim s))")
          case (Inl e')
          with Cons.prems Inr ne bound have "e = e'" by simp
          with evalCallArgValue_error[OF Inl] show ?thesis by simp
        next
          case v: (Inr v)
          with Cons.prems Inr ne bound
          have "bindParams rest rawArgs scope name (assign args (trim s) v) = Inl e" by simp
          then show ?thesis by (rule Cons.IH)
        qed
      qed
    qed
  qed
qed

lemma bindEntries_error: "bindEntries rawArgs scope name args = Inl e \<Longrightarrow> \<not> budget_error e"
  by (induction rawArgs scope name args rule: bindEntries.induct)
    (auto split: sum.splits dest: evalCallArgValue_error)

lemma callArgs_error: "callArgs def step scope name = Inl e \<Longrightarrow> \<not> budget_error e"
  by (auto simp: callArgs_def Let_def split: option.splits json.splits
      dest: bindParams_error bindEntries_error)

lemma forHeader_error: "forHeader step scope = Inl e \<Longrightarrow> \<not> budget_error e"
  by (auto simp: forHeader_def 
      split: sum.splits option.splits json.splits if_splits
      dest!: String_or_empty_error evalIntExpr_error) (simp_all add: budget_error_def)

lemma callTarget_error: "callTarget defs step scope = Inl e \<Longrightarrow> \<not> budget_error e"
  by (auto simp: callTarget_def
      split: sum.splits option.splits json.splits if_splits
      dest!: String_or_empty_error callArgs_error) (simp_all add: budget_error_def)

lemma forHeaderD:
  assumes "forHeader step scope = Inr (varName, from, to, stride, body)"
  shows "\<exists>s. String_or_empty (map_of step ''var'') = Inr s \<and> varName = trim s \<and> varName \<noteq> [] \<and>
           evalIntExpr (map_of step ''from'') scope ''for.from'' = Inr from \<and>
           evalIntExpr (map_of step ''to'') scope ''for.to'' = Inr to \<and>
           (case map_of step ''step'' of
              None \<Rightarrow> Inr 1
            | Some v \<Rightarrow> evalIntExpr (Some v) scope ''for.step'') = Inr stride \<and>
           stride \<noteq> 0 \<and> map_of step ''steps'' = Some (JArr body)"
  using assms
  by (auto simp: forHeader_def split: sum.splits if_splits option.splits json.splits)

lemma callTargetD:
  assumes "callTarget defs step scope = Inr (body, args)"
  shows "\<exists>s def. String_or_empty (map_of step ''name'') = Inr s \<and> trim s \<noteq> [] \<and>
           defs (trim s) = Some def \<and> map_of def ''steps'' = Some (JArr body) \<and>
           callArgs def step scope (trim s) = Inr args"
  using assms
  by (auto simp: callTarget_def split: sum.splits if_splits option.splits json.splits)

lemma within_budget_exec:
  "within_budget st (executeSteps catalog defs steps scope st callDepth)"
  "within_budget st (executeStepsLoop catalog defs steps scope st callDepth)"
  "within_budget st (executeForStep catalog defs step scope st callDepth)"
  "within_budget st (forLoopUp catalog defs body scope varName i to stride st callDepth)"
  "within_budget st (forLoopDown catalog defs body scope varName i to stride st callDepth)"
  "within_budget st (executeCallStep catalog defs step scope st callDepth)"
proof (induct catalog defs steps scope st callDepth
    and catalog defs steps scope st callDepth
    and catalog defs step scope st callDepth
    and catalog defs body scope varName i to stride st callDepth
    and catalog defs body scope varName i to stride st callDepth
    and catalog defs step scope st callDepth
    rule: executeSteps_executeStepsLoop_executeForStep_forLoopUp_forLoopDown_executeCallStep.induct)
  case (1 catalog defs steps scope st callDepth)
  then show ?case
    by (subst executeSteps.simps) (auto intro: wb_err simp: budget_error_def)
next
  case (2 catalog defs steps scope st callDepth)
  let ?st1 = "st\<lparr>executedSteps := executedSteps st + 1\<rparr>"
  show ?case
  proof (cases steps)
    case Nil
    then show ?thesis by (simp add: executeStepsLoop_Nil wb_refl)
  next
    case (Cons rawStep rest)
    show ?thesis
    proof (cases "MAX_BLOCKS \<le> length (out st)")
      case True
      then show ?thesis by (simp add: executeStepsLoop_full wb_refl)
    next
      case room: False
      show ?thesis
      proof (cases "MAX_EXECUTED_STEPS < executedSteps st + 1")
        case True
        show ?thesis
          unfolding Cons executeStepsLoop_exceeded[OF room True]
          by (rule wb_step_exceeded[OF True])
      next
        case budget: False
        have budget': "\<not> MAX_EXECUTED_STEPS < executedSteps ?st1" using budget by simp
        show ?thesis
        proof (cases "\<exists>step. rawStep = JObj step")
          case False
          then have "\<forall>step. rawStep \<noteq> JObj step" by blast
          from executeStepsLoop_not_object[OF room budget this]
          show ?thesis unfolding Cons
            by (auto intro!: wb_step_then[OF budget] wb_err simp: budget_error_def)
        next
          case True
          then obtain step where JObj: "rawStep = JObj step" by blast
          show ?thesis
          proof (cases "String_or_empty (map_of step ''op'')")
            case (Inl e)
            from executeStepsLoop_op_error[OF room budget Inl] String_or_empty_error[OF Inl]
            show ?thesis unfolding Cons JObj
              by (auto intro!: wb_step_then[OF budget] wb_err simp: budget_error_def)
          next
            case (Inr s)
            consider (is_place) "toLowerCase s = ''place'' \<or> toLowerCase s = ''block''"
              | (is_for) "\<not> (toLowerCase s = ''place'' \<or> toLowerCase s = ''block'')"
                  "toLowerCase s = ''for''"
              | (is_call) "\<not> (toLowerCase s = ''place'' \<or> toLowerCase s = ''block'')"
                  "toLowerCase s \<noteq> ''for''" "toLowerCase s = ''call''"
              | (is_other) "toLowerCase s \<noteq> ''place''" "toLowerCase s \<noteq> ''block''"
                  "toLowerCase s \<noteq> ''for''" "toLowerCase s \<noteq> ''call''"
              by blast
            then show ?thesis
            proof cases
              case is_place
              show ?thesis
              proof (cases "normalizeCompactBlock catalog step scope")
                case (Inl e)
                from normalizeCompactBlock_error[OF Inl] show ?thesis
                  unfolding Cons JObj executeStepsLoop_place[OF room budget Inr is_place]
                  by (auto simp: Inl intro!: wb_step_then[OF budget] wb_err)
              next
                case b: (Inr b)
                have "within_budget (?st1\<lparr>out := out ?st1 @ [b]\<rparr>)
                    (executeStepsLoop catalog defs rest scope (?st1\<lparr>out := out ?st1 @ [b]\<rparr>)
                       callDepth)"
                  by (rule 2(1)[OF Cons room refl budget' JObj Inr refl is_place b])
                then have "within_budget ?st1
                    (executeStepsLoop catalog defs rest scope (?st1\<lparr>out := out ?st1 @ [b]\<rparr>)
                       callDepth)"
                  by (rule wb_out_then)
                then have "within_budget st
                    (executeStepsLoop catalog defs rest scope (?st1\<lparr>out := out ?st1 @ [b]\<rparr>)
                       callDepth)"
                  by (rule wb_step_then[OF budget])
                then show ?thesis
                  unfolding Cons JObj executeStepsLoop_place[OF room budget Inr is_place]
                  by (simp add: b)
              qed
            next
              case is_for
              have a: "within_budget ?st1 (executeForStep catalog defs step scope ?st1 callDepth)"
                by (rule 2(2)[OF Cons room refl budget' JObj Inr refl is_for])
              have "within_budget ?st1
                  (case executeForStep catalog defs step scope ?st1 callDepth of
                     (Some e, st2) \<Rightarrow> (Some e, st2)
                   | (None, st2) \<Rightarrow> executeStepsLoop catalog defs rest scope st2 callDepth)"
              proof (rule wb_bind[OF a])
                fix st' assume "executeForStep catalog defs step scope ?st1 callDepth = (None, st')"
                then show "within_budget st' (executeStepsLoop catalog defs rest scope st' callDepth)"
                  using 2(3)[OF Cons room refl budget' JObj Inr refl is_for _ refl, of st'] by simp
              qed
              then show ?thesis
                unfolding Cons JObj executeStepsLoop_for[OF room budget Inr is_for(2)]
                by (rule wb_step_then[OF budget])
            next
              case is_call
              have a: "within_budget ?st1 (executeCallStep catalog defs step scope ?st1 callDepth)"
                by (rule 2(4)[OF Cons room refl budget' JObj Inr refl is_call])
              have "within_budget ?st1
                  (case executeCallStep catalog defs step scope ?st1 callDepth of
                     (Some e, st2) \<Rightarrow> (Some e, st2)
                   | (None, st2) \<Rightarrow> executeStepsLoop catalog defs rest scope st2 callDepth)"
              proof (rule wb_bind[OF a])
                fix st' assume "executeCallStep catalog defs step scope ?st1 callDepth = (None, st')"
                then show "within_budget st' (executeStepsLoop catalog defs rest scope st' callDepth)"
                  using 2(5)[OF Cons room refl budget' JObj Inr refl is_call _ refl, of st'] by simp
              qed
              then show ?thesis
                unfolding Cons JObj executeStepsLoop_call[OF room budget Inr is_call(3)]
                by (rule wb_step_then[OF budget])
            next
              case is_other
              show ?thesis
                unfolding Cons JObj executeStepsLoop_unsupported[OF room budget Inr is_other]
                by (auto intro!: wb_step_then[OF budget] wb_err simp: budget_error_def)
            qed
          qed
        qed
      qed
    qed
  qed
next
  case (3 catalog defs step scope st callDepth)
  show ?case
  proof (cases "forHeader step scope")
    case (Inl e)
    with forHeader_error[OF Inl] show ?thesis
      by (simp add: executeForStep_header wb_err)
  next
    case (Inr h)
    obtain varName lo hi stride body where h: "h = (varName, lo, hi, stride, body)"
      by (cases h)
    from forHeaderD[OF Inr[unfolded h]] obtain s where
      s: "String_or_empty (map_of step ''var'') = Inr s" "varName = trim s" "varName \<noteq> []"
        "evalIntExpr (map_of step ''from'') scope ''for.from'' = Inr lo"
        "evalIntExpr (map_of step ''to'') scope ''for.to'' = Inr hi"
        "(case map_of step ''step'' of
            None \<Rightarrow> Inr 1
          | Some v \<Rightarrow> evalIntExpr (Some v) scope ''for.step'') = Inr stride"
        "stride \<noteq> 0" "map_of step ''steps'' = Some (JArr body)"
      by blast
    show ?thesis
    proof (cases "0 < stride")
      case True
      have "within_budget st (forLoopUp catalog defs body scope varName lo hi stride st callDepth)"
        by (rule 3(1)[OF s(1,2,3,4,5,6,7,8) refl True])
      with Inr h True show ?thesis by (simp add: executeForStep_header)
    next
      case False
      have "within_budget st (forLoopDown catalog defs body scope varName lo hi stride st callDepth)"
        by (rule 3(2)[OF s(1,2,3,4,5,6,7,8) refl False])
      with Inr h False show ?thesis by (simp add: executeForStep_header)
    qed
  qed
next
  case (4 catalog defs body scope varName i to stride st callDepth)
  show ?case
  proof (cases "0 < stride \<and> i \<le> to")
    case False
    then show ?thesis by (simp add: forLoopUp_stop wb_refl)
  next
    case True
    have a: "within_budget st
        (executeSteps catalog defs body (scope(varName \<mapsto> SNum i)) st (callDepth + 1))"
      using 4(1)[OF True] .
    have "within_budget st
        (case executeSteps catalog defs body (scope(varName \<mapsto> SNum i)) st (callDepth + 1) of
           (Some e, st1) \<Rightarrow> (Some e, st1)
         | (None, st1) \<Rightarrow>
             if MAX_BLOCKS \<le> length (out st1) then (None, st1)
             else
               (case Number_int (i + stride) of
                  None \<Rightarrow> (None, st1)
                | Some next \<Rightarrow>
                    if i < next then
                      forLoopUp catalog defs body scope varName next to stride st1 callDepth
                    else if next = i \<and> executedSteps st < executedSteps st1 \<and>
                        executedSteps st1 \<le> MAX_EXECUTED_STEPS then
                      forLoopUp catalog defs body scope varName next to stride st1 callDepth
                    else (Some NeverReturns, st1)))"
    proof (rule wb_bind[OF a])
      fix st'
      assume r: "executeSteps catalog defs body (scope(varName \<mapsto> SNum i)) st (callDepth + 1) = (None, st')"
      have never: "within_budget st' (Some NeverReturns, st')"
        by (rule wb_err) (simp add: budget_error_def)
      show "within_budget st'
          (if MAX_BLOCKS \<le> length (out st') then (None, st')
           else
             (case Number_int (i + stride) of
                None \<Rightarrow> (None, st')
              | Some next \<Rightarrow>
                  if i < next then
                    forLoopUp catalog defs body scope varName next to stride st' callDepth
                  else if next = i \<and> executedSteps st < executedSteps st' \<and>
                      executedSteps st' \<le> MAX_EXECUTED_STEPS then
                    forLoopUp catalog defs body scope varName next to stride st' callDepth
                  else (Some NeverReturns, st')))"
        using 4(2)[OF True r[symmetric] refl] 4(3)[OF True r[symmetric] refl] never
        by (auto simp: wb_refl split: option.splits)
    qed
    then show ?thesis unfolding forLoopUp_iterate[OF True] .
  qed
next
  case (5 catalog defs body scope varName i to stride st callDepth)
  show ?case
  proof (cases "stride < 0 \<and> to \<le> i")
    case False
    then show ?thesis by (simp add: forLoopDown_stop wb_refl)
  next
    case True
    have a: "within_budget st
        (executeSteps catalog defs body (scope(varName \<mapsto> SNum i)) st (callDepth + 1))"
      using 5(1)[OF True] .
    have "within_budget st
        (case executeSteps catalog defs body (scope(varName \<mapsto> SNum i)) st (callDepth + 1) of
           (Some e, st1) \<Rightarrow> (Some e, st1)
         | (None, st1) \<Rightarrow>
             if MAX_BLOCKS \<le> length (out st1) then (None, st1)
             else
               (case Number_int (i + stride) of
                  None \<Rightarrow> (None, st1)
                | Some next \<Rightarrow>
                    if next < i then
                      forLoopDown catalog defs body scope varName next to stride st1 callDepth
                    else if next = i \<and> executedSteps st < executedSteps st1 \<and>
                        executedSteps st1 \<le> MAX_EXECUTED_STEPS then
                      forLoopDown catalog defs body scope varName next to stride st1 callDepth
                    else (Some NeverReturns, st1)))"
    proof (rule wb_bind[OF a])
      fix st'
      assume r: "executeSteps catalog defs body (scope(varName \<mapsto> SNum i)) st (callDepth + 1) = (None, st')"
      have never: "within_budget st' (Some NeverReturns, st')"
        by (rule wb_err) (simp add: budget_error_def)
      show "within_budget st'
          (if MAX_BLOCKS \<le> length (out st') then (None, st')
           else
             (case Number_int (i + stride) of
                None \<Rightarrow> (None, st')
              | Some next \<Rightarrow>
                  if next < i then
                    forLoopDown catalog defs body scope varName next to stride st' callDepth
                  else if next = i \<and> executedSteps st < executedSteps st' \<and>
                      executedSteps st' \<le> MAX_EXECUTED_STEPS then
                    forLoopDown catalog defs body scope varName next to stride st' callDepth
                  else (Some NeverReturns, st')))"
        using 5(2)[OF True r[symmetric] refl] 5(3)[OF True r[symmetric] refl] never
        by (auto simp: wb_refl split: option.splits)
    qed
    then show ?thesis unfolding forLoopDown_iterate[OF True] .
  qed
next
  case (6 catalog defs step scope st callDepth)
  let ?st1 = "st\<lparr>calls := calls st + 1\<rparr>"
  show ?case
  proof (cases "MAX_CALLS < calls st + 1")
    case True
    then show ?thesis by (simp add: executeCallStep_target wb_call_exceeded del: One_nat_def)
  next
    case budget: False
    have budget': "\<not> MAX_CALLS < calls ?st1" using budget by simp
    show ?thesis
    proof (cases "callTarget defs step scope")
      case (Inl e)
      from callTarget_error[OF Inl] have "within_budget ?st1 (Some e, ?st1)" by (rule wb_err)
      then have "within_budget st (Some e, ?st1)" by (rule wb_call_then[OF budget])
      with budget Inl show ?thesis by (simp add: executeCallStep_target)
    next
      case (Inr t)
      obtain body args where t: "t = (body, args)" by (cases t)
      from callTargetD[OF Inr[unfolded t]] obtain s def where
        s: "String_or_empty (map_of step ''name'') = Inr s" "trim s \<noteq> []"
          "defs (trim s) = Some def" "map_of def ''steps'' = Some (JArr body)"
          "callArgs def step scope (trim s) = Inr args"
        by blast
      have "within_budget ?st1
          (executeSteps catalog defs body (scope ++ args) ?st1 (callDepth + 1))"
        by (rule 6[OF refl budget' s(1) refl s(2,3,4) refl s(5)])
      then have "within_budget st
          (executeSteps catalog defs body (scope ++ args) ?st1 (callDepth + 1))"
        by (rule wb_call_then[OF budget])
      with budget Inr t show ?thesis by (simp add: executeCallStep_target)
    qed
  qed
qed

text \<open>
  A list of steps that returns below the cap of the output has counted its first step.
  So the loop of a \<^verbatim>\<open>for\<close> step ends as \<open>NeverReturns\<close> only after an iteration that has
  changed nothing, with a body that is empty: the source repeats this iteration for ever.
\<close>

lemma loop_body_budget:
  "within_budget st (loop_body catalog defs rawStep scope st callDepth)"
proof (cases rawStep)
  case (JObj step)
  show ?thesis
  proof (cases "String_or_empty (map_of step ''op'')")
    case (Inl e)
    with String_or_empty_error[OF Inl] JObj show ?thesis
      by (auto simp: loop_body_def budget_error_def intro!: wb_err)
  next
    case (Inr s)
    show ?thesis
    proof (cases "normalizeCompactBlock catalog step scope")
      case (Inl e)
      with normalizeCompactBlock_error[OF Inl] JObj Inr show ?thesis
        using within_budget_exec(3)[of st catalog defs step scope callDepth]
          within_budget_exec(6)[of st catalog defs step scope callDepth]
        by (auto simp: loop_body_def Let_def budget_error_def intro!: wb_err)
    next
      case b: (Inr b)
      have "within_budget st (None, st\<lparr>out := out st @ [b]\<rparr>)"
        by (simp add: within_budget_def)
      with JObj Inr b show ?thesis
        using within_budget_exec(3)[of st catalog defs step scope callDepth]
          within_budget_exec(6)[of st catalog defs step scope callDepth]
        by (auto simp: loop_body_def Let_def budget_error_def intro!: wb_err)
    qed
  qed
qed (auto simp: loop_body_def budget_error_def intro!: wb_err)

lemma executeSteps_progress:
  assumes "executeSteps catalog defs (rawStep # rest) scope st callDepth = (None, st1)"
    and "length (out st1) < MAX_BLOCKS"
  shows "executedSteps st < executedSteps st1 \<and> executedSteps st1 \<le> MAX_EXECUTED_STEPS"
proof -
  let ?st' = "st\<lparr>executedSteps := executedSteps st + 1\<rparr>"
  from assms have room: "\<not> MAX_BLOCKS \<le> length (out st)"
    by (subst (asm) executeSteps_unfold) (auto split: if_splits)
  from assms room have budget: "\<not> MAX_EXECUTED_STEPS < executedSteps st + 1"
    by (subst (asm) executeSteps_unfold) (auto split: if_splits)
  obtain res st2 where b: "loop_body catalog defs rawStep scope ?st' callDepth = (res, st2)"
    by (cases "loop_body catalog defs rawStep scope ?st' callDepth")
  from assms(1) room budget b have none: "res = None"
    and r: "executeSteps catalog defs rest scope st2 callDepth = (None, st1)"
    by (subst (asm) executeSteps_unfold; auto split: if_splits option.splits)+
  from loop_body_budget[of ?st' catalog defs rawStep scope callDepth] b
  have 1: "executedSteps st + 1 \<le> executedSteps st2"
    by (simp add: within_budget_def)
  from within_budget_exec(1)[of st2 catalog defs rest scope callDepth] r
  have 2: "executedSteps st2 \<le> executedSteps st1"
    by (simp add: within_budget_def)
  from within_budget_exec(1)[of st catalog defs "rawStep # rest" scope callDepth] assms(1) budget
  have 3: "executedSteps st1 \<le> MAX_EXECUTED_STEPS"
    by (simp add: within_budget_def)
  from 1 2 3 show ?thesis by simp
qed

lemma never_returns_exact:
  assumes "executeSteps catalog defs body scope st callDepth = (None, st1)"
    and "length (out st1) < MAX_BLOCKS"
    and "\<not> (executedSteps st < executedSteps st1 \<and> executedSteps st1 \<le> MAX_EXECUTED_STEPS)"
  shows "body = [] \<and> st1 = st"
proof (cases body)
  case Nil
  with assms(1) show ?thesis
    by (subst (asm) executeSteps_unfold) (auto split: if_splits)
next
  case (Cons rawStep rest)
  with executeSteps_progress[OF assms(1)[unfolded Cons] assms(2)] assms(3) show ?thesis by simp
qed

subsection \<open>Claim C3\<close>

text \<open>
  C3. Every execution keeps the two counters within their budget: neither decreases; from
  a counter within its ceiling (50000 steps, 500 calls) the execution ends at most one
  past it, and ends past it exactly when it throws the error of that ceiling.
  \<^verbatim>\<open>executeSteps\<close>, on a step it takes up with the output below its cap, adds one to
  \<open>executedSteps\<close> before it looks at the step, whatever the step is, throws at once when
  the counter is past its ceiling, and goes on with the steps left in the state that the
  step has left. A \<^verbatim>\<open>place\<close> step adds a block and leaves the counters (\<open>loop_body\<close>). A
  \<^verbatim>\<open>for\<close> step throws the error of its header with the state as it was, or executes its
  body for a list of values in the state that the execution before has left: the step and
  its iterations add nothing of their own to a counter. \<^verbatim>\<open>executeCallStep\<close> adds one to
  \<open>calls\<close> first and throws at once when the counter is past its ceiling; only then does it
  look up the name, and a failure of the lookup leaves the call counted; the body is
  executed in the state with that count.
\<close>

theorem C3_budget_counters:
  "within_budget st (executeSteps catalog defs steps scope st callDepth) \<and>
   within_budget st (executeForStep catalog defs step scope st callDepth) \<and>
   within_budget st (executeCallStep catalog defs step scope st callDepth) \<and>
   executeSteps catalog defs steps scope st callDepth =
     (if MAX_CALL_DEPTH < callDepth then (Some CallDepthExceeded, st)
      else
        (case steps of
           [] \<Rightarrow> (None, st)
         | rawStep # rest \<Rightarrow>
             if MAX_BLOCKS \<le> length (out st) then (None, st)
             else if MAX_EXECUTED_STEPS < executedSteps st + 1
               then (Some ExecutedStepsExceeded, st\<lparr>executedSteps := executedSteps st + 1\<rparr>)
             else
               (case loop_body catalog defs rawStep scope
                       (st\<lparr>executedSteps := executedSteps st + 1\<rparr>) callDepth of
                  (Some e, st2) \<Rightarrow> (Some e, st2)
                | (None, st2) \<Rightarrow> executeSteps catalog defs rest scope st2 callDepth))) \<and>
   (forHeader step scope = Inl e \<longrightarrow>
      executeForStep catalog defs step scope st callDepth = (Some e, st)) \<and>
   (forHeader step scope = Inr (v, a, b, s, body) \<longrightarrow>
      (\<exists>vals. ends_as (executeForStep catalog defs step scope st callDepth)
         (spec_run_iterations catalog defs body scope v vals st callDepth))) \<and>
   executeCallStep catalog defs step scope st callDepth =
     (if MAX_CALLS < calls st + 1 then (Some CallsExceeded, st\<lparr>calls := calls st + 1\<rparr>)
      else
        (case callTarget defs step scope of
           Inl e \<Rightarrow> (Some e, st\<lparr>calls := calls st + 1\<rparr>)
         | Inr (body, args) \<Rightarrow>
             executeSteps catalog defs body (scope ++ args) (st\<lparr>calls := calls st + 1\<rparr>)
               (callDepth + 1)))"
  using within_budget_exec(1)[of st catalog defs steps scope callDepth]
    within_budget_exec(3)[of st catalog defs step scope callDepth]
    within_budget_exec(6)[of st catalog defs step scope callDepth]
    executeSteps_unfold[of catalog defs steps scope st callDepth]
    executeForStep_runs[of step scope e catalog defs st callDepth v a b s body]
    executeCallStep_target[of catalog defs step scope st callDepth]
  by blast

theorem C3_witness:
  "executeSteps DEFAULT_ALLOWED_BLOCK_TYPES Map.empty [call_f] Map.empty
     \<lparr>out = [], executedSteps = 0, calls = 0\<rparr> 0 =
     (Some (UndefinedFunction ''f''), \<lparr>out = [], executedSteps = 1, calls = 1\<rparr>) \<and>
   executeSteps DEFAULT_ALLOWED_BLOCK_TYPES Map.empty [call_f] Map.empty
     \<lparr>out = [], executedSteps = 50000, calls = 0\<rparr> 0 =
     (Some ExecutedStepsExceeded, \<lparr>out = [], executedSteps = 50001, calls = 0\<rparr>) \<and>
   executeSteps DEFAULT_ALLOWED_BLOCK_TYPES Map.empty [call_f] Map.empty
     \<lparr>out = [], executedSteps = 0, calls = 500\<rparr> 0 =
     (Some CallsExceeded, \<lparr>out = [], executedSteps = 1, calls = 501\<rparr>) \<and>
   executeSteps DEFAULT_ALLOWED_BLOCK_TYPES Map.empty
     [JObj [(''op'', JStr ''for''), (''var'', JStr ''i''),
        (''from'', JNum 0), (''to'', JNum 4), (''steps'', JArr [place_i])]] Map.empty
     \<lparr>out = [], executedSteps = 0, calls = 0\<rparr> 0 =
     (None, \<lparr>out = [stone_at 0, stone_at 1, stone_at 2, stone_at 3, stone_at 4],
        executedSteps = 6, calls = 0\<rparr>) \<and>
   (\<exists>vals. ends_as
      (executeForStep DEFAULT_ALLOWED_BLOCK_TYPES Map.empty
         [(''op'', JStr ''for''), (''var'', JStr ''i''),
          (''from'', JNum 0), (''to'', JNum 4), (''steps'', JArr [place_i])] Map.empty
         \<lparr>out = [], executedSteps = 1, calls = 0\<rparr> 0)
      (spec_run_iterations DEFAULT_ALLOWED_BLOCK_TYPES Map.empty [place_i] Map.empty ''i'' vals
         \<lparr>out = [], executedSteps = 1, calls = 0\<rparr> 0)) \<and>
   executeForStep DEFAULT_ALLOWED_BLOCK_TYPES Map.empty
     [(''op'', JStr ''for''), (''var'', JStr ''i''), (''from'', JNum 0), (''to'', JNum 4),
      (''step'', JNum 0), (''steps'', JArr [place_i])] Map.empty
     \<lparr>out = [], executedSteps = 1, calls = 0\<rparr> 0 =
     (Some ForStepZero, \<lparr>out = [], executedSteps = 1, calls = 0\<rparr>) \<and>
   executedSteps (snd (executeSteps DEFAULT_ALLOWED_BLOCK_TYPES Map.empty [call_f] Map.empty
     \<lparr>out = [], executedSteps = 0, calls = 0\<rparr> 0)) \<le> MAX_EXECUTED_STEPS + 1 \<and>
   calls (snd (executeSteps DEFAULT_ALLOWED_BLOCK_TYPES Map.empty [call_f] Map.empty
     \<lparr>out = [], executedSteps = 0, calls = 0\<rparr> 0)) \<le> MAX_CALLS + 1"
proof -
  let ?step = "[(''op'', JStr ''call''), (''name'', JStr ''f'')]"
  let ?for = "[(''op'', JStr ''for''), (''var'', JStr ''i''),
        (''from'', JNum 0), (''to'', JNum 4), (''steps'', JArr [place_i])]"
  let ?zero = "[(''op'', JStr ''for''), (''var'', JStr ''i''), (''from'', JNum 0), (''to'', JNum 4),
      (''step'', JNum 0), (''steps'', JArr [place_i])]"
  let ?one = "\<lparr>out = [], executedSteps = 1, calls = 0\<rparr>"
  have t: "callTarget Map.empty ?step Map.empty = Inl (UndefinedFunction ''f'')"
    by (simp add: callTarget_def String_or_empty_def trim_def is_space_def)
  have b: "loop_body catalog defs call_f scope st callDepth =
      executeCallStep catalog defs ?step scope st callDepth" for catalog defs scope st callDepth
    by (simp add: loop_body_def call_f_def String_or_empty_def string_simps)
  have h: "forHeader ?for Map.empty = Inr (''i'', 0, 4, 1, [place_i])"
    using for_step_reads_header[OF row_reads] by simp
  have z: "forHeader ?zero Map.empty = Inl ForStepZero"
    by (simp add: forHeader_def String_or_empty_def trim_def is_space_def evalIntExpr_def
        Number_of_small)
  note law = C3_budget_counters[of _ DEFAULT_ALLOWED_BLOCK_TYPES Map.empty "[call_f]" Map.empty 0
      ?step]
  have 1: "executeSteps DEFAULT_ALLOWED_BLOCK_TYPES Map.empty [call_f] Map.empty
     \<lparr>out = [], executedSteps = 0, calls = 0\<rparr> 0 =
     (Some (UndefinedFunction ''f''), \<lparr>out = [], executedSteps = 1, calls = 1\<rparr>)"
    using law[of "\<lparr>out = [], executedSteps = 0, calls = 0\<rparr>"]
      law[of "\<lparr>out = [], executedSteps = 1, calls = 0\<rparr>"]
    by (simp add: b t limit_defs)
  have 2: "executeSteps DEFAULT_ALLOWED_BLOCK_TYPES Map.empty [call_f] Map.empty
     \<lparr>out = [], executedSteps = 50000, calls = 0\<rparr> 0 =
     (Some ExecutedStepsExceeded, \<lparr>out = [], executedSteps = 50001, calls = 0\<rparr>)"
    using law[of "\<lparr>out = [], executedSteps = 50000, calls = 0\<rparr>"]
    by (simp add: limit_defs)
  have 3: "executeSteps DEFAULT_ALLOWED_BLOCK_TYPES Map.empty [call_f] Map.empty
     \<lparr>out = [], executedSteps = 0, calls = 500\<rparr> 0 =
     (Some CallsExceeded, \<lparr>out = [], executedSteps = 1, calls = 501\<rparr>)"
    using law[of "\<lparr>out = [], executedSteps = 0, calls = 500\<rparr>"]
      law[of "\<lparr>out = [], executedSteps = 1, calls = 500\<rparr>"]
    by (simp add: b limit_defs)
  have 4: "executedSteps (snd (executeSteps DEFAULT_ALLOWED_BLOCK_TYPES Map.empty [call_f] Map.empty
       \<lparr>out = [], executedSteps = 0, calls = 0\<rparr> 0)) \<le> MAX_EXECUTED_STEPS + 1 \<and>
     calls (snd (executeSteps DEFAULT_ALLOWED_BLOCK_TYPES Map.empty [call_f] Map.empty
       \<lparr>out = [], executedSteps = 0, calls = 0\<rparr> 0)) \<le> MAX_CALLS + 1"
  proof -
    from law[of "\<lparr>out = [], executedSteps = 0, calls = 0\<rparr>"]
    have "within_budget \<lparr>out = [], executedSteps = 0, calls = 0\<rparr>
        (executeSteps DEFAULT_ALLOWED_BLOCK_TYPES Map.empty [call_f] Map.empty
           \<lparr>out = [], executedSteps = 0, calls = 0\<rparr> 0)"
      by (rule conjunct1)
    then show ?thesis
      by (auto simp: within_budget_def split: prod.splits)
  qed
  have 5: "\<exists>vals. ends_as
      (executeForStep DEFAULT_ALLOWED_BLOCK_TYPES Map.empty ?for Map.empty ?one 0)
      (spec_run_iterations DEFAULT_ALLOWED_BLOCK_TYPES Map.empty [place_i] Map.empty ''i'' vals
         ?one 0)"
    using C3_budget_counters[where step = ?for and scope = Map.empty and v = "''i''" and a = 0
        and b = 4 and s = 1 and body = "[place_i]" and catalog = DEFAULT_ALLOWED_BLOCK_TYPES
        and defs = Map.empty and st = ?one and callDepth = 0] h
    by blast
  have 6: "executeForStep DEFAULT_ALLOWED_BLOCK_TYPES Map.empty ?zero Map.empty ?one 0 =
      (Some ForStepZero, ?one)"
    using C3_budget_counters[where step = ?zero and scope = Map.empty and e = ForStepZero
        and catalog = DEFAULT_ALLOWED_BLOCK_TYPES and defs = Map.empty and st = ?one
        and callDepth = 0] z
    by blast
  from 1 2 3 4 5 6 row_steps show ?thesis by blast
qed

subsection \<open>The depth of the calls\<close>

lemma nested_for_level:
  assumes "length (out st) < MAX_BLOCKS" and "executedSteps st < MAX_EXECUTED_STEPS"
    and "callDepth \<le> MAX_CALL_DEPTH"
  shows "executeSteps catalog defs (nested_for (Suc n) body) scope st callDepth =
     executeSteps catalog defs (nested_for n body) (scope(''i'' \<mapsto> SNum 0))
       (st\<lparr>executedSteps := executedSteps st + 1\<rparr>) (callDepth + 1)"
proof -
  let ?step = "[(''op'', JStr ''for''), (''var'', JStr ''i''), (''from'', JNum 0),
    (''to'', JNum 0), (''steps'', JArr (nested_for n body))]"
  have room: "\<not> MAX_BLOCKS \<le> length (out st)" using assms(1) by simp
  have budget: "\<not> MAX_EXECUTED_STEPS < executedSteps st + 1" using assms(2) by simp
  have op: "String_or_empty (map_of ?step ''op'') = Inr ''for''"
    by (simp add: String_or_empty_def)
  have low: "toLowerCase ''for'' = ''for''" by (simp add: string_simps)
  have reads: "for_step_reads ?step scope ''i'' 0 0 1"
    by (simp add: for_step_reads_def String_or_empty_def trim_def is_space_def evalIntExpr_def
        Number_of_small)
  have vals: "spec_for_values 0 0 1 = [0]"
    by (simp add: spec_for_values_up spec_for_values_up_stop)
  have exact: "loop_exact 0 0 1"
    by (simp add: loop_exact_def)
  have e: "executeForStep catalog defs ?step scope st1 callDepth =
      spec_run_iterations catalog defs (nested_for n body) scope ''i'' [0] st1 callDepth" for st1
    by (simp add: executeForStep_iterations[OF reads _ _ exact] vals)
  let ?st1 = "st\<lparr>executedSteps := executedSteps st + 1\<rparr>"
  obtain res st2 where r: "executeSteps catalog defs (nested_for n body)
      (scope(''i'' \<mapsto> SNum 0)) ?st1 (callDepth + 1) = (res, st2)"
    by (cases "executeSteps catalog defs (nested_for n body)
      (scope(''i'' \<mapsto> SNum 0)) ?st1 (callDepth + 1)")
  have f: "executeForStep catalog defs ?step scope ?st1 callDepth = (res, st2)"
    unfolding e using r by (cases res) simp_all
  have l: "executeStepsLoop catalog defs [JObj ?step] scope st callDepth =
      (case executeForStep catalog defs ?step scope ?st1 callDepth of
         (Some e, st2) \<Rightarrow> (Some e, st2)
       | (None, st2) \<Rightarrow> executeStepsLoop catalog defs [] scope st2 callDepth)"
    by (rule executeStepsLoop_for[OF room budget op low])
  show ?thesis
    unfolding nested_for.simps executeSteps_loop[OF assms(3)] l f r
    by (cases res) (simp_all add: executeStepsLoop_Nil)
qed

lemma nested_for_deep:
  "MAX_CALL_DEPTH < callDepth + n \<Longrightarrow> length (out st) < MAX_BLOCKS \<Longrightarrow>
   executedSteps st + (25 - callDepth) \<le> MAX_EXECUTED_STEPS \<Longrightarrow>
   fst (executeSteps catalog defs (nested_for n body) scope st callDepth) = Some CallDepthExceeded"
proof (induction n arbitrary: callDepth scope st)
  case 0
  then show ?case by (simp add: executeSteps_too_deep)
next
  case (Suc n)
  show ?case
  proof (cases "MAX_CALL_DEPTH < callDepth")
    case True
    then show ?thesis by (simp add: executeSteps_too_deep)
  next
    case False
    then have d: "callDepth \<le> MAX_CALL_DEPTH" by simp
    have b: "executedSteps st < MAX_EXECUTED_STEPS"
      using Suc.prems(3) d by (simp add: limit_defs)
    let ?st1 = "st\<lparr>executedSteps := executedSteps st + 1\<rparr>"
    have 1: "MAX_CALL_DEPTH < (callDepth + 1) + n" using Suc.prems(1) by simp
    have 2: "length (out ?st1) < MAX_BLOCKS" using Suc.prems(2) by simp
    have 3: "executedSteps ?st1 + (25 - (callDepth + 1)) \<le> MAX_EXECUTED_STEPS"
      using Suc.prems(3) d by (simp add: limit_defs)
    show ?thesis
      unfolding nested_for_level[OF Suc.prems(2) b d]
      by (rule Suc.IH[OF 1 2 3])
  qed
qed

lemma place_origin_step:
  assumes "length (out st) < MAX_BLOCKS" and "executedSteps st < MAX_EXECUTED_STEPS"
    and "callDepth \<le> MAX_CALL_DEPTH"
  shows "executeSteps DEFAULT_ALLOWED_BLOCK_TYPES defs [place_origin] scope st callDepth =
     (None, st\<lparr>executedSteps := executedSteps st + 1, out := out st @ [stone_at 0]\<rparr>)"
proof -
  let ?step = "[(''op'', JStr ''place''), (''x'', JNum 0), (''y'', JNum 0), (''z'', JNum 0)]"
  have room: "\<not> MAX_BLOCKS \<le> length (out st)" using assms(1) by simp
  have budget: "\<not> MAX_EXECUTED_STEPS < executedSteps st + 1" using assms(2) by simp
  have op: "String_or_empty (map_of ?step ''op'') = Inr ''place''"
    by (simp add: String_or_empty_def)
  have low: "toLowerCase ''place'' = ''place'' \<or> toLowerCase ''place'' = ''block''"
    by (simp add: string_simps)
  have b: "normalized_identifier DEFAULT_BLOCK_TYPE = ''minecraft:stone''"
    by (simp add: normalized_identifier_def string_simps DEFAULT_BLOCK_TYPE_def)
  have block: "normalizeCompactBlock DEFAULT_ALLOWED_BLOCK_TYPES ?step scope = Inr (stone_at 0)"
    by (simp add: normalizeCompactBlock_def evalIntExpr_def Number_of_small stone_at_def
        normalizeBlockType_def resolveScopedValue_def b DEFAULT_ALLOWED_BLOCK_TYPES_def)
  show ?thesis
    unfolding place_origin_def
    by (simp add: executeSteps_loop[OF assms(3)] executeStepsLoop_place[OF room budget op low]
        block executeStepsLoop_Nil)
qed

lemma nested_for_shallow:
  "callDepth + n \<le> MAX_CALL_DEPTH \<Longrightarrow> length (out st) < MAX_BLOCKS \<Longrightarrow>
   executedSteps st + n < MAX_EXECUTED_STEPS \<Longrightarrow>
   executeSteps DEFAULT_ALLOWED_BLOCK_TYPES defs (nested_for n [place_origin]) scope st callDepth =
     (None, st\<lparr>executedSteps := executedSteps st + (n + 1), out := out st @ [stone_at 0]\<rparr>)"
proof (induction n arbitrary: callDepth scope st)
  case 0
  then show ?case by (simp add: place_origin_step)
next
  case (Suc n)
  let ?st1 = "st\<lparr>executedSteps := executedSteps st + 1\<rparr>"
  have d: "callDepth \<le> MAX_CALL_DEPTH" using Suc.prems(1) by simp
  have b: "executedSteps st < MAX_EXECUTED_STEPS" using Suc.prems(3) by simp
  have 1: "(callDepth + 1) + n \<le> MAX_CALL_DEPTH" using Suc.prems(1) by simp
  have 2: "length (out ?st1) < MAX_BLOCKS" using Suc.prems(2) by simp
  have 3: "executedSteps ?st1 + n < MAX_EXECUTED_STEPS" using Suc.prems(3) by simp
  show ?case
    unfolding nested_for_level[OF Suc.prems(2) b d] Suc.IH[OF 1 2 3]
    by simp
qed

lemma nested_program_blocks:
  "parseBlocksFromResponse DEFAULT_ALLOWED_BLOCK_TYPES (nested_program n) =
     (if n \<le> MAX_CALL_DEPTH then Inr [stone_at 0] else Inl CallDepthExceeded)"
proof (cases "n \<le> MAX_CALL_DEPTH")
  case True
  let ?st = "\<lparr>out = [], executedSteps = 0, calls = 0\<rparr>"
  have "executeSteps DEFAULT_ALLOWED_BLOCK_TYPES Map.empty (nested_for n [place_origin]) Map.empty
      ?st 0 = (None, ?st\<lparr>executedSteps := executedSteps ?st + (n + 1),
        out := out ?st @ [stone_at 0]\<rparr>)"
    using True by (intro nested_for_shallow) (simp_all add: limit_defs)
  with True show ?thesis
    by (simp add: parseBlocksFromResponse_def nested_program_def isArray_def
        expandCompactProgram_def MAX_BLOCKS_def)
next
  case False
  let ?st = "\<lparr>out = [], executedSteps = 0, calls = 0\<rparr>"
  obtain res st' where r: "executeSteps DEFAULT_ALLOWED_BLOCK_TYPES Map.empty
      (nested_for n [place_origin]) Map.empty ?st 0 = (res, st')"
    by (cases "executeSteps DEFAULT_ALLOWED_BLOCK_TYPES Map.empty
      (nested_for n [place_origin]) Map.empty ?st 0")
  have "fst (executeSteps DEFAULT_ALLOWED_BLOCK_TYPES Map.empty (nested_for n [place_origin])
      Map.empty ?st 0) = Some CallDepthExceeded"
    using False by (intro nested_for_deep) (simp_all add: limit_defs)
  with r have "res = Some CallDepthExceeded" by simp
  with r False show ?thesis
    by (simp add: parseBlocksFromResponse_def nested_program_def isArray_def
        expandCompactProgram_def beyond_def)
qed

lemma call_f_target:
  "defs ''f'' = Some recursive_f \<Longrightarrow>
   callTarget defs [(''op'', JStr ''call''), (''name'', JStr ''f'')] scope = Inr ([call_f], Map.empty)"
  by (simp add: callTarget_def String_or_empty_def trim_def is_space_def recursive_f_def
      callArgs_def)

lemma call_f_level:
  assumes "defs ''f'' = Some recursive_f"
    and "length (out st) < MAX_BLOCKS" and "executedSteps st < MAX_EXECUTED_STEPS"
    and "calls st < MAX_CALLS" and "callDepth \<le> MAX_CALL_DEPTH"
  shows "executeSteps catalog defs [call_f] scope st callDepth =
     executeSteps catalog defs [call_f] scope
       (st\<lparr>executedSteps := executedSteps st + 1, calls := calls st + 1\<rparr>) (callDepth + 1)"
proof -
  let ?step = "[(''op'', JStr ''call''), (''name'', JStr ''f'')]"
  let ?st1 = "st\<lparr>executedSteps := executedSteps st + 1\<rparr>"
  let ?st2 = "st\<lparr>executedSteps := executedSteps st + 1, calls := calls st + 1\<rparr>"
  have room: "\<not> MAX_BLOCKS \<le> length (out st)" using assms(2) by simp
  have budget: "\<not> MAX_EXECUTED_STEPS < executedSteps st + 1" using assms(3) by simp
  have op: "String_or_empty (map_of ?step ''op'') = Inr ''call''"
    by (simp add: String_or_empty_def)
  have low: "toLowerCase ''call'' = ''call''" by (simp add: string_simps)
  obtain res st3 where r: "executeSteps catalog defs [call_f] scope ?st2 (callDepth + 1) = (res, st3)"
    by (cases "executeSteps catalog defs [call_f] scope ?st2 (callDepth + 1)")
  have c: "executeCallStep catalog defs ?step scope ?st1 callDepth = (res, st3)"
    using assms(4) r by (simp add: executeCallStep_target call_f_target[where defs = defs, OF assms(1)])
  have l: "executeStepsLoop catalog defs [JObj ?step] scope st callDepth =
      (case executeCallStep catalog defs ?step scope ?st1 callDepth of
         (Some e, st2) \<Rightarrow> (Some e, st2)
       | (None, st2) \<Rightarrow> executeStepsLoop catalog defs [] scope st2 callDepth)"
    by (rule executeStepsLoop_call[OF room budget op low])
  have "executeSteps catalog defs [JObj ?step] scope st callDepth = (res, st3)"
    unfolding executeSteps_loop[OF assms(5)] l c
    by (cases res) (simp_all add: executeStepsLoop_Nil)
  then show ?thesis using r by (simp add: call_f_def)
qed

lemma call_f_deep:
  "defs ''f'' = Some recursive_f \<Longrightarrow> callDepth + k = 25 \<Longrightarrow> length (out st) < MAX_BLOCKS \<Longrightarrow>
   executedSteps st + k \<le> MAX_EXECUTED_STEPS \<Longrightarrow> calls st + k \<le> MAX_CALLS \<Longrightarrow>
   executeSteps catalog defs [call_f] scope st callDepth =
     (Some CallDepthExceeded,
      st\<lparr>executedSteps := executedSteps st + k, calls := calls st + k\<rparr>)"
proof (induction k arbitrary: callDepth st)
  case 0
  then show ?case by (simp add: executeSteps_too_deep MAX_CALL_DEPTH_def)
next
  case (Suc k)
  let ?st2 = "st\<lparr>executedSteps := executedSteps st + 1, calls := calls st + 1\<rparr>"
  have d: "callDepth \<le> MAX_CALL_DEPTH" using Suc.prems(2) by (simp add: MAX_CALL_DEPTH_def)
  have b: "executedSteps st < MAX_EXECUTED_STEPS" using Suc.prems(4) by simp
  have c: "calls st < MAX_CALLS" using Suc.prems(5) by simp
  have 1: "(callDepth + 1) + k = 25" using Suc.prems(2) by simp
  have 2: "length (out ?st2) < MAX_BLOCKS" using Suc.prems(3) by simp
  have 3: "executedSteps ?st2 + k \<le> MAX_EXECUTED_STEPS" using Suc.prems(4) by simp
  have 4: "calls ?st2 + k \<le> MAX_CALLS" using Suc.prems(5) by simp
  show ?case
    unfolding call_f_level[where defs = defs, OF Suc.prems(1) Suc.prems(3) b c d]
      Suc.IH[OF Suc.prems(1) 1 2 3 4]
    by simp
qed

lemma recursive_program_fails:
  "parseBlocksFromResponse DEFAULT_ALLOWED_BLOCK_TYPES recursive_program = Inl CallDepthExceeded"
proof -
  let ?st = "\<lparr>out = [], executedSteps = 0, calls = 0\<rparr>"
  let ?defs = "[''f'' \<mapsto> recursive_f]"
  have "executeSteps DEFAULT_ALLOWED_BLOCK_TYPES ?defs [call_f] Map.empty ?st 0 =
      (Some CallDepthExceeded, ?st\<lparr>executedSteps := executedSteps ?st + 25, calls := calls ?st + 25\<rparr>)"
    by (rule call_f_deep) (simp_all add: limit_defs)
  then show ?thesis
    by (simp add: parseBlocksFromResponse_def recursive_program_def isArray_def
        expandCompactProgram_def String_or_empty_def trim_def is_space_def recursive_f_def
        Let_def beyond_def)
qed

subsection \<open>Claim C4\<close>

text \<open>
  C4. An execution of a list of steps at a depth above 24 throws the error of the depth
  at once. A \<^verbatim>\<open>for\<close> step executes its body one level deeper than the step: for the
  first value of the loop and then for the others, when the loop is one of exact sums,
  and for a list of values whatever the numbers are. A \<^verbatim>\<open>call\<close> step executes the body
  of its function one level deeper than the step. A block inside \<open>n\<close> nested \<^verbatim>\<open>for\<close> steps
  is placed when \<open>n\<close> is at most 24, and the program throws the error of the depth when
  \<open>n\<close> is larger: 20 levels succeed, 30 fail. A function that calls itself throws the
  error of the depth.
\<close>

theorem C4_call_depth:
  "(MAX_CALL_DEPTH < callDepth \<longrightarrow>
      executeSteps catalog defs steps scope st callDepth = (Some CallDepthExceeded, st)) \<and>
   (for_step_reads step scope v a b s \<and> s \<noteq> 0 \<and> loop_exact a b s \<and>
    map_of step ''steps'' = Some (JArr body) \<and> spec_for_values a b s = i # others \<longrightarrow>
      executeForStep catalog defs step scope st callDepth =
        (case executeSteps catalog defs body (scope(v \<mapsto> SNum i)) st (callDepth + 1) of
           (Some e, st1) \<Rightarrow> (Some e, st1)
         | (None, st1) \<Rightarrow> spec_run_iterations catalog defs body scope v others st1 callDepth)) \<and>
   (forHeader step scope = Inr (v, a, b, s, body) \<longrightarrow>
      (\<exists>vals. ends_as (executeForStep catalog defs step scope st callDepth)
         (spec_run_iterations catalog defs body scope v vals st callDepth))) \<and>
   (calls st < MAX_CALLS \<and> callTarget defs step scope = Inr (body, args) \<longrightarrow>
      executeCallStep catalog defs step scope st callDepth =
        executeSteps catalog defs body (scope ++ args) (st\<lparr>calls := calls st + 1\<rparr>)
          (callDepth + 1)) \<and>
   parseBlocksFromResponse DEFAULT_ALLOWED_BLOCK_TYPES (nested_program n) =
     (if n \<le> MAX_CALL_DEPTH then Inr [stone_at 0] else Inl CallDepthExceeded) \<and>
   parseBlocksFromResponse DEFAULT_ALLOWED_BLOCK_TYPES recursive_program = Inl CallDepthExceeded"
proof -
  have f: "executeForStep catalog defs step scope st callDepth =
        (case executeSteps catalog defs body (scope(v \<mapsto> SNum i)) st (callDepth + 1) of
           (Some e, st1) \<Rightarrow> (Some e, st1)
         | (None, st1) \<Rightarrow> spec_run_iterations catalog defs body scope v others st1 callDepth)"
    if "for_step_reads step scope v a b s" "s \<noteq> 0" "map_of step ''steps'' = Some (JArr body)"
      "loop_exact a b s" "spec_for_values a b s = i # others"
    unfolding executeForStep_iterations[OF that(1,2,3,4)] that(5) by simp
  have c: "executeCallStep catalog defs step scope st callDepth =
        executeSteps catalog defs body (scope ++ args) (st\<lparr>calls := calls st + 1\<rparr>)
          (callDepth + 1)"
    if "calls st < MAX_CALLS" "callTarget defs step scope = Inr (body, args)"
    using that by (simp add: executeCallStep_target)
  show ?thesis
    using executeSteps_too_deep[of callDepth catalog defs steps scope st] f c
      executeForStep_runs[of step scope _ catalog defs st callDepth v a b s body]
      nested_program_blocks[of n] recursive_program_fails
    by blast
qed

theorem C4_witness:
  "parseBlocksFromResponse DEFAULT_ALLOWED_BLOCK_TYPES (nested_program 30) = Inl CallDepthExceeded \<and>
   parseBlocksFromResponse DEFAULT_ALLOWED_BLOCK_TYPES (nested_program 20) = Inr [stone_at 0] \<and>
   executeSteps DEFAULT_ALLOWED_BLOCK_TYPES Map.empty [place_origin] Map.empty
     \<lparr>out = [], executedSteps = 0, calls = 0\<rparr> 25 =
     (Some CallDepthExceeded, \<lparr>out = [], executedSteps = 0, calls = 0\<rparr>) \<and>
   executeForStep DEFAULT_ALLOWED_BLOCK_TYPES Map.empty
     [(''op'', JStr ''for''), (''var'', JStr ''i''), (''from'', JNum 0), (''to'', JNum 0),
      (''steps'', JArr [place_origin])]
     Map.empty \<lparr>out = [], executedSteps = 0, calls = 0\<rparr> 24 =
     (Some CallDepthExceeded, \<lparr>out = [], executedSteps = 0, calls = 0\<rparr>) \<and>
   (\<exists>vals. ends_as
      (executeForStep DEFAULT_ALLOWED_BLOCK_TYPES Map.empty
         [(''op'', JStr ''for''), (''var'', JStr ''i''), (''from'', JNum 0), (''to'', JNum 0),
          (''steps'', JArr [place_origin])]
         Map.empty \<lparr>out = [], executedSteps = 0, calls = 0\<rparr> 24)
      (spec_run_iterations DEFAULT_ALLOWED_BLOCK_TYPES Map.empty [place_origin] Map.empty ''i''
         vals \<lparr>out = [], executedSteps = 0, calls = 0\<rparr> 24)) \<and>
   executeCallStep DEFAULT_ALLOWED_BLOCK_TYPES [''f'' \<mapsto> recursive_f]
     [(''op'', JStr ''call''), (''name'', JStr ''f'')]
     Map.empty \<lparr>out = [], executedSteps = 0, calls = 0\<rparr> 24 =
     (Some CallDepthExceeded, \<lparr>out = [], executedSteps = 0, calls = 1\<rparr>)"
proof -
  let ?for = "[(''op'', JStr ''for''), (''var'', JStr ''i''), (''from'', JNum 0), (''to'', JNum 0),
      (''steps'', JArr [place_origin])]"
  let ?call = "[(''op'', JStr ''call''), (''name'', JStr ''f'')]"
  let ?st = "\<lparr>out = [], executedSteps = 0, calls = 0\<rparr>"
  let ?defs = "[''f'' \<mapsto> recursive_f]"
  have reads: "for_step_reads ?for Map.empty ''i'' 0 0 1"
    by (simp add: for_step_reads_def String_or_empty_def trim_def is_space_def evalIntExpr_def
        Number_of_small)
  have header: "forHeader ?for Map.empty = Inr (''i'', 0, 0, 1, [place_origin])"
    using for_step_reads_header[OF reads] by simp
  have exact: "loop_exact 0 0 1"
    by (simp add: loop_exact_def)
  have vals: "spec_for_values 0 0 1 = [0]"
    by (simp add: spec_for_values_up spec_for_values_up_stop)
  have target: "callTarget ?defs ?call Map.empty = Inr ([call_f], Map.empty)"
    by (rule call_f_target) simp
  have deep: "executeSteps catalog defs steps scope st 25 = (Some CallDepthExceeded, st)"
    for catalog defs steps scope st
    using C4_call_depth[of 25 catalog defs steps scope st] by (simp add: MAX_CALL_DEPTH_def)
  have 1: "parseBlocksFromResponse DEFAULT_ALLOWED_BLOCK_TYPES (nested_program 30) =
      Inl CallDepthExceeded"
    using C4_call_depth[where n = 30] by (simp add: MAX_CALL_DEPTH_def)
  have 2: "parseBlocksFromResponse DEFAULT_ALLOWED_BLOCK_TYPES (nested_program 20) =
      Inr [stone_at 0]"
    using C4_call_depth[where n = 20] by (simp add: MAX_CALL_DEPTH_def)
  have 3: "executeForStep DEFAULT_ALLOWED_BLOCK_TYPES Map.empty ?for Map.empty ?st 24 =
      (Some CallDepthExceeded, ?st)"
    using C4_call_depth[where step = ?for and scope = Map.empty and v = "''i''" and a = 0
        and b = 0 and s = 1 and body = "[place_origin]" and i = 0 and others = "[]"
        and catalog = DEFAULT_ALLOWED_BLOCK_TYPES and defs = Map.empty and st = ?st
        and callDepth = 24] reads vals exact
    by (simp add: deep)
  have 4: "executeCallStep DEFAULT_ALLOWED_BLOCK_TYPES ?defs ?call Map.empty ?st 24 =
      (Some CallDepthExceeded, \<lparr>out = [], executedSteps = 0, calls = 1\<rparr>)"
    using C4_call_depth[where step = ?call and scope = Map.empty and body = "[call_f]"
        and args = Map.empty and catalog = DEFAULT_ALLOWED_BLOCK_TYPES and defs = ?defs
        and st = ?st and callDepth = 24] target
    by (simp add: deep MAX_CALLS_def)
  have 5: "\<exists>vals. ends_as
      (executeForStep DEFAULT_ALLOWED_BLOCK_TYPES Map.empty ?for Map.empty ?st 24)
      (spec_run_iterations DEFAULT_ALLOWED_BLOCK_TYPES Map.empty [place_origin] Map.empty ''i''
         vals ?st 24)"
    using C4_call_depth[where step = ?for and scope = Map.empty and v = "''i''" and a = 0
        and b = 0 and s = 1 and body = "[place_origin]"
        and catalog = DEFAULT_ALLOWED_BLOCK_TYPES and defs = Map.empty and st = ?st
        and callDepth = 24] header
    by blast
  from 1 2 3 4 5 deep[of DEFAULT_ALLOWED_BLOCK_TYPES Map.empty "[place_origin]" Map.empty ?st]
  show ?thesis by blast
qed

end
